theory Spec2Isabelle
  imports Complex_Main "HOL-Library.Word" "HOL-Library.Multiset"
begin

section \<open>Numbers, byte buffers and palettes\<close>

text \<open>
  A JavaScript number is modelled as an exact rational, or \<open>None\<close> for \<open>NaN\<close> (which is also
  what \<open>undefined\<close>, the result of reading an array out of range, becomes in arithmetic).
  IEEE-754 rounding and the infinities are not modelled: every arithmetic result is exact.
  A \<open>Uint8ClampedArray\<close> is a list of 8-bit words; reading it out of range gives \<open>undefined\<close>
  and writing it out of range does nothing (as \<open>xs[i := v]\<close> does).
  Console output is no part of a function's result and is left out.
\<close>

type_synonym jsnum = "rat option"
type_synonym byte = "8 word"
type_synonym color = "rat list"
type_synonym palette = "color list"

definition jbin :: "(rat \<Rightarrow> rat \<Rightarrow> rat) \<Rightarrow> jsnum \<Rightarrow> jsnum \<Rightarrow> jsnum" where
  "jbin f a b = (case a of None \<Rightarrow> None
                 | Some x \<Rightarrow> (case b of None \<Rightarrow> None | Some y \<Rightarrow> Some (f x y)))"

definition jlt :: "jsnum \<Rightarrow> jsnum \<Rightarrow> bool" where
  "jlt a b = (case a of None \<Rightarrow> False
              | Some x \<Rightarrow> (case b of None \<Rightarrow> False | Some y \<Rightarrow> x < y))"

definition byte_at :: "byte list \<Rightarrow> nat \<Rightarrow> jsnum" where
  "byte_at xs i = (if i < length xs then Some (of_nat (unat (xs ! i))) else None)"

text \<open>The conversion of a number stored into a \<open>Uint8ClampedArray\<close>: \<open>NaN\<close> becomes 0, the
  value is clamped to [0,255] and rounded to the nearest integer, ties to even.\<close>

definition ToUint8Clamp :: "jsnum \<Rightarrow> byte" where
  "ToUint8Clamp v = (case v of None \<Rightarrow> 0
     | Some x \<Rightarrow>
        if x \<le> 0 then 0
        else if 255 \<le> x then 255
        else (let f = \<lfloor>x\<rfloor> in
              if of_int f + 1/2 < x then word_of_int (f + 1)
              else if x < of_int f + 1/2 then word_of_int f
              else if even f then word_of_int f else word_of_int (f + 1)))"

section \<open>helpers.js\<close>

definition colorDistanceSquared ::
  "jsnum \<Rightarrow> jsnum \<Rightarrow> jsnum \<Rightarrow> jsnum \<Rightarrow> jsnum \<Rightarrow> jsnum \<Rightarrow> jsnum" where
  "colorDistanceSquared r1 g1 b1 r2 g2 b2 =
     (let dr = jbin (-) r1 r2; dg = jbin (-) g1 g2; db = jbin (-) b1 b2
      in jbin (+) (jbin (+) (jbin (*) dr dr) (jbin (*) dg dg)) (jbin (*) db db))"

text \<open>\<open>Array.isArray(color) && color.length >= 3\<close>\<close>

definition validEntry :: "color \<Rightarrow> bool" where
  "validEntry c = (3 \<le> length c)"

text \<open>The loop \<open>for (i = 1; i < palette.length; i++)\<close> over the rest of the palette, carrying
  \<open>minDistance\<close> and \<open>closestColor\<close>.\<close>

fun closest_loop :: "jsnum \<Rightarrow> jsnum \<Rightarrow> jsnum \<Rightarrow> color list \<Rightarrow> jsnum \<times> color \<Rightarrow> jsnum \<times> color" where
  "closest_loop r g b [] st = st"
| "closest_loop r g b (c # cs) (minDistance, closestColor) =
     (if validEntry c then
        (let distance = colorDistanceSquared r g b (Some (c ! 0)) (Some (c ! 1)) (Some (c ! 2))
         in if jlt distance minDistance then closest_loop r g b cs (distance, c)
            else closest_loop r g b cs (minDistance, closestColor))
      else closest_loop r g b cs (minDistance, closestColor))"

text \<open>The palette argument is \<open>None\<close> when it is missing (\<open>null\<close> or \<open>undefined\<close>).\<close>

definition findClosestPaletteColor :: "jsnum \<Rightarrow> jsnum \<Rightarrow> jsnum \<Rightarrow> palette option \<Rightarrow> jsnum list" where
  "findClosestPaletteColor r g b palette =
     (case palette of None \<Rightarrow> [r, g, b]
      | Some pal \<Rightarrow>
         if length pal = 0 then [r, g, b]
         else (let closestColor = (if validEntry (pal ! 0) then pal ! 0 else [0, 0, 0]);
                   minDistance = colorDistanceSquared r g b
                      (Some (closestColor ! 0)) (Some (closestColor ! 1)) (Some (closestColor ! 2))
               in map Some (snd (closest_loop r g b (tl pal) (minDistance, closestColor)))))"

text \<open>Reading element \<open>k\<close> of a returned color array.\<close>

definition elem :: "jsnum list \<Rightarrow> nat \<Rightarrow> jsnum" where
  "elem c k = (if k < length c then c ! k else None)"

section \<open>palette.js: generatePalette\<close>

text \<open>A candidate color \<open>[r, g, b]\<close> read from the pixel buffer; \<open>chan k p\<close> is \<open>p[k]\<close> for the
  \<open>k\<close> = 0, 1, 2 the code uses.\<close>

type_synonym pixel = "byte \<times> byte \<times> byte"

definition chan :: "int \<Rightarrow> pixel \<Rightarrow> int" where
  "chan k p = (case p of (r, g, b) \<Rightarrow> if k = 0 then uint r else if k = 1 then uint g else uint b)"

text \<open>\<open>Math.round\<close> of a finite number.\<close>

definition Math_round :: "rat \<Rightarrow> rat" where
  "Math_round x = of_int \<lfloor>x + 1/2\<rfloor>"

text \<open>The loop collecting the colors of the pixels with alpha above 128.\<close>

function collect_loop :: "byte list \<Rightarrow> nat \<Rightarrow> pixel list \<Rightarrow> pixel list" where
  "collect_loop pixelDataArray i allPixels =
     (if i < length pixelDataArray
      then collect_loop pixelDataArray (i + 4)
             (if jlt (Some 128) (byte_at pixelDataArray (i + 3))
              then allPixels @ [(pixelDataArray ! i, pixelDataArray ! (i + 1), pixelDataArray ! (i + 2))]
              else allPixels)
      else allPixels)"
  by pat_completeness auto
termination
  by (relation "measure (\<lambda>(p, i, a). length p - i)") auto

declare collect_loop.simps [simp del]

text \<open>The grayscale ramp returned when no pixel qualifies; \<open>numColors - 1 || 1\<close> is 1 when
  \<open>numColors - 1\<close> is 0.\<close>

definition fallbackPalette :: "nat \<Rightarrow> palette" where
  "fallbackPalette numColors =
     map (\<lambda>i. let shade = of_int \<lfloor>(of_nat i :: rat)
                     * (255 / (if of_nat numColors - 1 = (0 :: rat) then 1 else of_nat numColors - 1))\<rfloor>
              in [shade, shade, shade])
       [0..<numColors]"

definition MAX_PIXELS_FOR_PALETTE_GENERATION :: nat where
  "MAX_PIXELS_FOR_PALETTE_GENERATION = 65536"

text \<open>The sampling loop \<open>for (i = 0; i < allPixels.length; i += step)\<close> with its \<open>break\<close>; the
  constant \<open>step\<close> is recomputed in every round.\<close>

function sample_loop :: "pixel list \<Rightarrow> nat \<Rightarrow> pixel list \<Rightarrow> pixel list" where
  "sample_loop allPixels i pixelsToProcess =
     (let step = max 1 (length allPixels div MAX_PIXELS_FOR_PALETTE_GENERATION) in
      if i < length allPixels then
        (let pixelsToProcess' = pixelsToProcess @ [allPixels ! i] in
         if length pixelsToProcess' \<ge> MAX_PIXELS_FOR_PALETTE_GENERATION then pixelsToProcess'
         else sample_loop allPixels (i + step) pixelsToProcess')
      else pixelsToProcess)"
  by pat_completeness auto
termination
  by (relation "measure (\<lambda>(a, i, p). length a - i)") auto

declare sample_loop.simps [simp del]

text \<open>The ranges \<open>dR\<close>, \<open>dG\<close>, \<open>dB\<close> of a bucket, from the running minima and maxima that start
  at 255 and 0.\<close>

definition bucket_ranges :: "pixel list \<Rightarrow> int \<times> int \<times> int" where
  "bucket_ranges bucket =
     (case fold (\<lambda>p (minR, maxR, minG, maxG, minB, maxB).
                   (min minR (chan 0 p), max maxR (chan 0 p),
                    min minG (chan 1 p), max maxG (chan 1 p),
                    min minB (chan 2 p), max maxB (chan 2 p)))
             bucket (255, 0, 255, 0, 255, 0)
      of (minR, maxR, minG, maxG, minB, maxB) \<Rightarrow> (maxR - minR, maxG - minG, maxB - minB))"

text \<open>One round of the search for the bucket to split; the state is
  \<open>(bestBucketIndex, maxRange, splitDimension)\<close>.\<close>

definition best_step :: "pixel list list \<Rightarrow> nat \<Rightarrow> int \<times> int \<times> int \<Rightarrow> int \<times> int \<times> int" where
  "best_step buckets i st =
     (if length (buckets ! i) \<le> 1 then st
      else
        (case bucket_ranges (buckets ! i) of (dR, dG, dB) \<Rightarrow>
           (let st1 = (if dR > fst (snd st) then (int i, dR, 0) else st);
                st2 = (if dG > fst (snd st1) then (int i, dG, 1) else st1)
            in if dB > fst (snd st2) then (int i, dB, 2) else st2)))"

definition find_best :: "pixel list list \<Rightarrow> int \<times> int \<times> int" where
  "find_best buckets = fold (best_step buckets) [0..<length buckets] (- 1, - 1, - 1)"

text \<open>Sorting the chosen bucket (the sort is stable), splitting it at the median index and
  replacing it by the two halves; empty buckets are then filtered out.\<close>

definition split_bucket :: "pixel list list \<Rightarrow> int \<Rightarrow> int \<Rightarrow> pixel list list" where
  "split_bucket buckets bestBucketIndex splitDimension =
     (let bucketToSplit = sort_key (chan splitDimension) (buckets ! nat bestBucketIndex);
          medianIndex = length bucketToSplit div 2;
          newBucket1 = take medianIndex bucketToSplit;
          newBucket2 = drop medianIndex bucketToSplit;
          buckets' = take (nat bestBucketIndex) buckets @ [newBucket1, newBucket2]
                       @ drop (nat bestBucketIndex + 1) buckets
      in filter (\<lambda>bucket. length bucket > 0) buckets')"

lemma best_step_fst:
  "fst (best_step buckets i st) = fst st \<or>
   (fst (best_step buckets i st) = int i \<and> 1 < length (buckets ! i))"
proof (cases "length (buckets ! i) \<le> 1")
  case True
  then show ?thesis by (simp add: best_step_def)
next
  case False
  obtain dR dG dB where r: "bucket_ranges (buckets ! i) = (dR, dG, dB)"
    by (cases "bucket_ranges (buckets ! i)") auto
  define st1 where "st1 = (if dR > fst (snd st) then (int i, dR, 0) else st)"
  define st2 where "st2 = (if dG > fst (snd st1) then (int i, dG, 1) else st1)"
  have res: "best_step buckets i st = (if dB > fst (snd st2) then (int i, dB, 2) else st2)"
    using False by (simp add: best_step_def r st1_def st2_def)
  have "fst st1 = fst st \<or> fst st1 = int i" by (simp add: st1_def)
  then have "fst st2 = fst st \<or> fst st2 = int i" by (auto simp: st2_def)
  then show ?thesis using False unfolding res by auto
qed

lemma best_step_index:
  assumes "i < n" "fst st = - 1 \<or> (0 \<le> fst st \<and> nat (fst st) < n \<and> 1 < length (buckets ! nat (fst st)))"
  shows "fst (best_step buckets i st) = - 1 \<or>
         (0 \<le> fst (best_step buckets i st) \<and> nat (fst (best_step buckets i st)) < n \<and>
          1 < length (buckets ! nat (fst (best_step buckets i st))))"
proof -
  from best_step_fst[of buckets i st] show ?thesis
  proof
    assume "fst (best_step buckets i st) = fst st"
    then show ?thesis using assms(2) by simp
  next
    assume "fst (best_step buckets i st) = int i \<and> 1 < length (buckets ! i)"
    then show ?thesis using assms(1) by simp
  qed
qed

lemma find_best_index:
  "fst (find_best buckets) = - 1 \<or>
   (0 \<le> fst (find_best buckets) \<and> nat (fst (find_best buckets)) < length buckets \<and>
    1 < length (buckets ! nat (fst (find_best buckets))))"
proof -
  have "\<And>m st. m \<le> length buckets \<Longrightarrow>
          fst st = - 1 \<or> (0 \<le> fst st \<and> nat (fst st) < length buckets \<and> 1 < length (buckets ! nat (fst st))) \<Longrightarrow>
          fst (fold (best_step buckets) [0..<m] st) = - 1 \<or>
          (0 \<le> fst (fold (best_step buckets) [0..<m] st) \<and>
           nat (fst (fold (best_step buckets) [0..<m] st)) < length buckets \<and>
           1 < length (buckets ! nat (fst (fold (best_step buckets) [0..<m] st))))"
  proof -
    fix m st
    show "m \<le> length buckets \<Longrightarrow>
          fst st = - 1 \<or> (0 \<le> fst st \<and> nat (fst st) < length buckets \<and> 1 < length (buckets ! nat (fst st))) \<Longrightarrow>
          fst (fold (best_step buckets) [0..<m] st) = - 1 \<or>
          (0 \<le> fst (fold (best_step buckets) [0..<m] st) \<and>
           nat (fst (fold (best_step buckets) [0..<m] st)) < length buckets \<and>
           1 < length (buckets ! nat (fst (fold (best_step buckets) [0..<m] st))))"
    proof (induction m)
      case 0
      then show ?case by simp
    next
      case (Suc m)
      then have "m < length buckets" by simp
      from best_step_index[OF this, of "fold (best_step buckets) [0..<m] st" buckets] Suc
      show ?case by simp
    qed
  qed
  from this[of "length buckets" "(- 1, - 1, - 1)"] show ?thesis
    by (simp add: find_best_def)
qed

lemma split_bucket_measure:
  assumes "nat i < length buckets" "1 < length (buckets ! nat i)"
  shows "sum_list (map (\<lambda>b. length b - 1) (split_bucket buckets i k))
           < sum_list (map (\<lambda>b. length b - 1) buckets)"
proof -
  let ?f = "\<lambda>b :: pixel list. length b - 1"
  let ?s = "sort_key (chan k) (buckets ! nat i)"
  let ?m = "length ?s div 2"
  have len: "length ?s = length (buckets ! nat i)" by simp
  have nonempty: "sum_list (map ?f (filter (\<lambda>b. length b > 0) bs)) = sum_list (map ?f bs)"
    for bs :: "pixel list list"
    by (induction bs) auto
  have halves: "?f (take ?m ?s) + ?f (drop ?m ?s) < ?f (buckets ! nat i)"
    using assms(2) len by simp
  have whole: "sum_list (map ?f buckets)
      = sum_list (map ?f (take (nat i) buckets)) + ?f (buckets ! nat i)
          + sum_list (map ?f (drop (nat i + 1) buckets))"
  proof -
    have "sum_list (map ?f buckets)
        = sum_list (map ?f (take (nat i) buckets @ buckets ! nat i # drop (Suc (nat i)) buckets))"
      by (rule arg_cong[where f = "\<lambda>bs. sum_list (map ?f bs)", OF id_take_nth_drop[OF assms(1)]])
    then show ?thesis by simp
  qed
  have "sum_list (map ?f (split_bucket buckets i k))
      = sum_list (map ?f (take (nat i) buckets)) + (?f (take ?m ?s) + ?f (drop ?m ?s))
          + sum_list (map ?f (drop (nat i + 1) buckets))"
    unfolding split_bucket_def Let_def nonempty by simp
  then show ?thesis using whole halves by linarith
qed

text \<open>The median-cut loop.\<close>

function median_cut :: "nat \<Rightarrow> pixel list list \<Rightarrow> pixel list list" where
  "median_cut numColors buckets =
     (if length buckets < numColors \<and> (\<exists>b\<in>set buckets. length b > 1) then
        (case find_best buckets of (bestBucketIndex, maxRange, splitDimension) \<Rightarrow>
           if bestBucketIndex = - 1 \<or> maxRange = 0 then buckets
           else median_cut numColors (split_bucket buckets bestBucketIndex splitDimension))
      else buckets)"
  by pat_completeness auto
termination
proof (relation "measure (\<lambda>(n, bs). sum_list (map (\<lambda>b. length b - 1) bs))")
  show "wf (measure (\<lambda>(n, bs). sum_list (map (\<lambda>b. length b - 1) bs)))" by simp
next
  fix numColors :: nat and buckets :: "pixel list list" and x y xa ya
  assume "(x, y) = find_best buckets" "(xa, ya) = y" "\<not> (x = - 1 \<or> xa = 0)"
  then have "fst (find_best buckets) = x" "x \<noteq> - 1" by (auto simp: fst_def split: prod.splits)
  with find_best_index[of buckets]
  have "nat x < length buckets" "1 < length (buckets ! nat x)" by auto
  then show "((numColors, split_bucket buckets x ya), numColors, buckets)
        \<in> measure (\<lambda>(n, bs). sum_list (map (\<lambda>b. length b - 1) bs))"
    using split_bucket_measure[of x buckets ya] by simp
qed

declare median_cut.simps [simp del]

text \<open>The average color of a bucket.\<close>

definition bucket_average :: "pixel list \<Rightarrow> color" where
  "bucket_average bucket =
     (if length bucket = 0 then [0, 0, 0]
      else
        (let r = sum_list (map (chan 0) bucket);
             g = sum_list (map (chan 1) bucket);
             b = sum_list (map (chan 2) bucket)
         in [Math_round (of_int r / of_nat (length bucket)),
             Math_round (of_int g / of_nat (length bucket)),
             Math_round (of_int b / of_nat (length bucket))]))"

text \<open>The two padding loops at the end.\<close>

function pad_last :: "nat \<Rightarrow> palette \<Rightarrow> palette" where
  "pad_last numColors generatedPalette =
     (if length generatedPalette < numColors \<and> length generatedPalette > 0
      then pad_last numColors
             (generatedPalette @ [generatedPalette ! (length generatedPalette - 1)])
      else generatedPalette)"
  by pat_completeness auto
termination
  by (relation "measure (\<lambda>(n, g). n - length g)") auto

declare pad_last.simps [simp del]

function pad_black :: "nat \<Rightarrow> palette \<Rightarrow> palette" where
  "pad_black numColors generatedPalette =
     (if length generatedPalette < numColors
      then pad_black numColors (generatedPalette @ [[0, 0, 0]])
      else generatedPalette)"
  by pat_completeness auto
termination
  by (relation "measure (\<lambda>(n, g). n - length g)") auto

declare pad_black.simps [simp del]

text \<open>The number of colors is a (finite) number; \<open>Math.floor\<close> and the clamping to [1,256]
  make it a natural number.\<close>

definition generatePalette :: "byte list \<Rightarrow> rat \<Rightarrow> palette" where
  "generatePalette pixelDataArray numColors0 =
     (let numColors = nat (max 1 (min 256 \<lfloor>numColors0\<rfloor>));
          allPixels = collect_loop pixelDataArray 0 []
      in if length allPixels = 0 then fallbackPalette numColors
         else
           (let sampled = (if length allPixels > MAX_PIXELS_FOR_PALETTE_GENERATION
                           then sample_loop allPixels 0 [] else allPixels);
                pixelsToProcess = (if length sampled = 0 then [allPixels ! 0] else sampled);
                buckets = median_cut numColors [pixelsToProcess];
                generatedPalette = map bucket_average buckets;
                padded = pad_last numColors generatedPalette;
                cut = (if length padded > numColors then take numColors padded else padded)
            in pad_black numColors cut))"

section \<open>palette.js: applyPalette\<close>

definition applyPalette_pixel :: "byte list \<Rightarrow> palette option \<Rightarrow> nat \<Rightarrow> byte list \<Rightarrow> byte list" where
  "applyPalette_pixel pixelDataArray palette i newData =
     (let aOrig = byte_at pixelDataArray (i + 3) in
      if aOrig = Some 0 then
        newData[i := 0, i + 1 := 0, i + 2 := 0, i + 3 := 0]
      else
        (let rOrig = byte_at pixelDataArray i;
             gOrig = byte_at pixelDataArray (i + 1);
             bOrig = byte_at pixelDataArray (i + 2);
             closestColor = findClosestPaletteColor rOrig gOrig bOrig palette
         in newData[i := ToUint8Clamp (elem closestColor 0),
                    i + 1 := ToUint8Clamp (elem closestColor 1),
                    i + 2 := ToUint8Clamp (elem closestColor 2),
                    i + 3 := ToUint8Clamp aOrig]))"

function applyPalette_loop :: "byte list \<Rightarrow> palette option \<Rightarrow> nat \<Rightarrow> byte list \<Rightarrow> byte list" where
  "applyPalette_loop pixelDataArray palette i newData =
     (if i < length pixelDataArray
      then applyPalette_loop pixelDataArray palette (i + 4)
             (applyPalette_pixel pixelDataArray palette i newData)
      else newData)"
  by pat_completeness auto
termination
  by (relation "measure (\<lambda>(p, pal, i, nd). length p - i)") auto

declare applyPalette_loop.simps [simp del]

definition applyPalette :: "byte list \<Rightarrow> palette option \<Rightarrow> byte list" where
  "applyPalette pixelDataArray palette =
     (case palette of None \<Rightarrow> pixelDataArray
      | Some pal \<Rightarrow>
         if length pal = 0 then pixelDataArray
         else applyPalette_loop pixelDataArray palette 0
                (replicate (length pixelDataArray) 0))"

section \<open>bayer.js\<close>

definition BAYER_MATRICES :: "string \<Rightarrow> rat list list" where
  "BAYER_MATRICES k =
     (if k = ''2x2'' then
        [[0, 2],
         [3, 1]]
      else if k = ''4x4'' then
        [[0,  8,  2, 10],
         [12, 4, 14,  6],
         [3, 11,  1,  9],
         [15, 7, 13,  5]]
      else
        [[ 0, 32,  8, 40,  2, 34, 10, 42],
         [48, 16, 56, 24, 50, 18, 58, 26],
         [12, 44,  4, 36, 14, 46,  6, 38],
         [60, 28, 52, 20, 62, 30, 54, 22],
         [ 3, 35, 11, 43,  1, 33,  9, 41],
         [51, 19, 59, 27, 49, 17, 57, 25],
         [15, 47,  7, 39, 13, 45,  5, 37],
         [63, 31, 55, 23, 61, 29, 53, 21]])"

text \<open>The body of the loop taken when the strength is 0.\<close>

definition bayer_zero_pixel :: "byte list \<Rightarrow> palette option \<Rightarrow> nat \<Rightarrow> byte list \<Rightarrow> byte list" where
  "bayer_zero_pixel pixelDataArray targetPalette i newData =
     (let aOrig = byte_at pixelDataArray (i + 3) in
      if aOrig = Some 0 then
        newData[i := 0, i + 1 := 0, i + 2 := 0, i + 3 := 0]
      else
        (let rOrig = byte_at pixelDataArray i;
             gOrig = byte_at pixelDataArray (i + 1);
             bOrig = byte_at pixelDataArray (i + 2);
             closestColor = findClosestPaletteColor rOrig gOrig bOrig targetPalette
         in newData[i := ToUint8Clamp (elem closestColor 0),
                    i + 1 := ToUint8Clamp (elem closestColor 1),
                    i + 2 := ToUint8Clamp (elem closestColor 2),
                    i + 3 := ToUint8Clamp aOrig]))"

function bayer_zero_loop :: "byte list \<Rightarrow> palette option \<Rightarrow> nat \<Rightarrow> byte list \<Rightarrow> byte list" where
  "bayer_zero_loop pixelDataArray targetPalette i newData =
     (if i < length pixelDataArray
      then bayer_zero_loop pixelDataArray targetPalette (i + 4)
             (bayer_zero_pixel pixelDataArray targetPalette i newData)
      else newData)"
  by pat_completeness auto
termination
  by (relation "measure (\<lambda>(p, pal, i, nd). length p - i)") auto

declare bayer_zero_loop.simps [simp del]

text \<open>\<open>Math.max(0, Math.min(255, v))\<close>\<close>

definition clamp255 :: "jsnum \<Rightarrow> jsnum" where
  "clamp255 v = jbin max (Some 0) (jbin min (Some 255) v)"

text \<open>The body of the nested loops over \<open>y\<close> and \<open>x\<close> taken when the strength is not 0.\<close>

definition bayer_pixel ::
  "byte list \<Rightarrow> nat \<Rightarrow> palette option \<Rightarrow> rat list list \<Rightarrow> nat \<Rightarrow> rat \<Rightarrow> rat \<Rightarrow> nat \<Rightarrow> nat
     \<Rightarrow> byte list \<Rightarrow> byte list" where
  "bayer_pixel pixelDataArray width targetPalette bayerMatrix matrixSize
       bayerValueNormalization maxThresholdOffset y x newData =
     (let i = (y * width + x) * 4;
          rOrig = byte_at pixelDataArray i;
          gOrig = byte_at pixelDataArray (i + 1);
          bOrig = byte_at pixelDataArray (i + 2);
          aOrig = byte_at pixelDataArray (i + 3) in
      if aOrig = Some 0 then
        newData[i := 0, i + 1 := 0, i + 2 := 0, i + 3 := 0]
      else
        (let bayerPatternValue = bayerMatrix ! (y mod matrixSize) ! (x mod matrixSize);
             thresholdAdjustment =
               (bayerPatternValue * bayerValueNormalization - 1/2) * maxThresholdOffset;
             rDithered = clamp255 (jbin (+) rOrig (Some thresholdAdjustment));
             gDithered = clamp255 (jbin (+) gOrig (Some thresholdAdjustment));
             bDithered = clamp255 (jbin (+) bOrig (Some thresholdAdjustment));
             closestColor = findClosestPaletteColor rDithered gDithered bDithered targetPalette
         in newData[i := ToUint8Clamp (elem closestColor 0),
                    i + 1 := ToUint8Clamp (elem closestColor 1),
                    i + 2 := ToUint8Clamp (elem closestColor 2),
                    i + 3 := ToUint8Clamp aOrig]))"

text \<open>The width and the height are natural numbers, the strength a (finite) number; the
  literals 33.3 and 66.6 are the rationals 333/10 and 666/10.\<close>

definition applyBayerDithering ::
  "byte list \<Rightarrow> nat \<Rightarrow> nat \<Rightarrow> palette option \<Rightarrow> rat \<Rightarrow> byte list" where
  "applyBayerDithering pixelDataArray width height targetPalette strengthPercent0 =
     (case targetPalette of None \<Rightarrow> pixelDataArray
      | Some pal \<Rightarrow>
         if length pal = 0 then pixelDataArray
         else if length pixelDataArray = 0 then pixelDataArray
         else
           (let newData = replicate (length pixelDataArray) 0;
                strengthPercent = max 0 (min 100 strengthPercent0) in
            if strengthPercent = 0 then bayer_zero_loop pixelDataArray targetPalette 0 newData
            else
              (let strengthFactor = strengthPercent / 100;
                   (bayerMatrix, matrixSize) =
                      (if strengthPercent \<le> 333 / 10 then (BAYER_MATRICES ''2x2'', 2::nat)
                       else if strengthPercent \<le> 666 / 10 then (BAYER_MATRICES ''4x4'', 4)
                       else (BAYER_MATRICES ''8x8'', 8));
                   bayerValueNormalization = 1 / (of_nat matrixSize * of_nat matrixSize);
                   maxThresholdOffset =
                      strengthFactor * of_nat matrixSize * of_nat matrixSize / 2
               in fold (\<lambda>y. fold (bayer_pixel pixelDataArray width targetPalette bayerMatrix
                                     matrixSize bayerValueNormalization maxThresholdOffset y)
                                [0..<width])
                    [0..<height] newData)))"

section \<open>floydSteinberg.js\<close>

text \<open>The scratch buffer \<open>d\<close> is a \<open>Float32Array\<close>: a list of numbers.\<close>

definition num_at :: "jsnum list \<Rightarrow> nat \<Rightarrow> jsnum" where
  "num_at d i = (if i < length d then d ! i else None)"

text \<open>\<open>Math.round\<close>\<close>

definition jround :: "jsnum \<Rightarrow> jsnum" where
  "jround v = map_option (\<lambda>x. of_int \<lfloor>x + 1/2\<rfloor>) v"

text \<open>\<open>d[ni] += errR * k / 16; d[ni + 1] += errG * k / 16; d[ni + 2] += errB * k / 16\<close>\<close>

definition add_error :: "jsnum list \<Rightarrow> nat \<Rightarrow> jsnum \<Rightarrow> jsnum \<Rightarrow> jsnum \<Rightarrow> rat \<Rightarrow> jsnum list" where
  "add_error d ni errR errG errB k =
     (let d1 = d[ni := jbin (+) (num_at d ni) (jbin (/) (jbin (*) errR (Some k)) (Some 16))];
          d2 = d1[ni + 1 := jbin (+) (num_at d1 (ni + 1)) (jbin (/) (jbin (*) errG (Some k)) (Some 16))]
      in d2[ni + 2 := jbin (+) (num_at d2 (ni + 2)) (jbin (/) (jbin (*) errB (Some k)) (Some 16))])"

definition fs_pixel ::
  "nat \<Rightarrow> nat \<Rightarrow> palette option \<Rightarrow> nat \<Rightarrow> nat \<Rightarrow> jsnum list \<times> byte list \<Rightarrow> jsnum list \<times> byte list" where
  "fs_pixel width height targetPalette y x st =
     (let d = fst st; outputData = snd st;
          i = (y * width + x) * 4 in
      if num_at d (i + 3) = Some 0 then
        (d, outputData[i := 0, i + 1 := 0, i + 2 := 0, i + 3 := 0])
      else
        (let oldR = clamp255 (num_at d i);
             oldG = clamp255 (num_at d (i + 1));
             oldB = clamp255 (num_at d (i + 2));
             oldA = num_at d (i + 3);
             newColor = findClosestPaletteColor oldR oldG oldB targetPalette;
             outputData' = outputData[i := ToUint8Clamp (elem newColor 0),
                                      i + 1 := ToUint8Clamp (elem newColor 1),
                                      i + 2 := ToUint8Clamp (elem newColor 2),
                                      i + 3 := ToUint8Clamp (jround oldA)];
             errR = jbin (-) oldR (elem newColor 0);
             errG = jbin (-) oldG (elem newColor 1);
             errB = jbin (-) oldB (elem newColor 2);
             d1 = (if x + 1 < width then add_error d (i + 4) errR errG errB 7 else d);
             d2 = (if int x - 1 \<ge> 0 \<and> y + 1 < height
                   then add_error d1 (i + width * 4 - 4) errR errG errB 3 else d1);
             d3 = (if y + 1 < height then add_error d2 (i + width * 4) errR errG errB 5 else d2);
             d4 = (if x + 1 < width \<and> y + 1 < height
                   then add_error d3 (i + width * 4 + 4) errR errG errB 1 else d3)
         in (d4, outputData')))"

definition applyFloydSteinbergDithering ::
  "byte list \<Rightarrow> nat \<Rightarrow> nat \<Rightarrow> palette option \<Rightarrow> byte list" where
  "applyFloydSteinbergDithering pixelDataArray width height targetPalette =
     (case targetPalette of None \<Rightarrow> pixelDataArray
      | Some pal \<Rightarrow>
         if length pal = 0 then pixelDataArray
         else if length pixelDataArray = 0 then pixelDataArray
         else
           (let d = map (\<lambda>v. Some (of_nat (unat v))) pixelDataArray;
                outputData = replicate (length pixelDataArray) 0
            in snd (fold (\<lambda>y. fold (fs_pixel width height targetPalette y) [0..<width])
                      [0..<height] (d, outputData))))"


section \<open>Notions of the specification\<close>

text \<open>The squared Euclidean distance \<open>dr\<^sup>2 + dg\<^sup>2 + db\<^sup>2\<close> between a color and a palette
  entry, as the specification words it.\<close>

definition dist2 :: "rat \<Rightarrow> rat \<Rightarrow> rat \<Rightarrow> color \<Rightarrow> rat" where
  "dist2 r g b c =
     (r - c ! 0) * (r - c ! 0) + (g - c ! 1) * (g - c ! 1) + (b - c ! 2) * (b - c ! 2)"

text \<open>The colors \<open>findClosestPaletteColor\<close> chooses from: the first entry (black in its place
  when it is malformed) and the well-formed entries after it.\<close>

definition candidates :: "palette \<Rightarrow> color list" where
  "candidates pal =
     (if validEntry (pal ! 0) then pal ! 0 else [0, 0, 0]) # filter validEntry (tl pal)"

text \<open>A palette whose color components are integers in [0,255].\<close>

definition byte_valued :: "color \<Rightarrow> bool" where
  "byte_valued c = (\<forall>k<3. \<exists>n<256. c ! k = of_nat n)"

definition integral_palette :: "palette \<Rightarrow> bool" where
  "integral_palette pal = (\<forall>c\<in>set pal. validEntry c \<longrightarrow> byte_valued c)"

text \<open>The four consecutive stores \<open>a[i] = v0; a[i + 1] = v1; a[i + 2] = v2; a[i + 3] = v3\<close>
  every pixel loop ends with.\<close>

definition write4 :: "'a list \<Rightarrow> nat \<Rightarrow> 'a \<Rightarrow> 'a \<Rightarrow> 'a \<Rightarrow> 'a \<Rightarrow> 'a list" where
  "write4 xs i v0 v1 v2 v3 = xs[i := v0, i + 1 := v1, i + 2 := v2, i + 3 := v3]"

text \<open>The byte the ordered dithering stores at offset \<open>k\<close> of pixel \<open>(x, y)\<close>, read off the
  body of its loop.\<close>

definition bayer_value ::
  "byte list \<Rightarrow> nat \<Rightarrow> palette option \<Rightarrow> rat list list \<Rightarrow> nat \<Rightarrow> rat \<Rightarrow> rat \<Rightarrow> nat \<Rightarrow> nat
     \<Rightarrow> nat \<Rightarrow> byte" where
  "bayer_value px w pal M sz nrm off y x k =
     (let i = (y * w + x) * 4;
          adj = (M ! (y mod sz) ! (x mod sz) * nrm - 1/2) * off
      in if byte_at px (i + 3) = Some 0 then 0
         else if k = 3 then ToUint8Clamp (byte_at px (i + 3))
         else ToUint8Clamp (elem (findClosestPaletteColor
                (clamp255 (jbin (+) (byte_at px i) (Some adj)))
                (clamp255 (jbin (+) (byte_at px (i + 1)) (Some adj)))
                (clamp255 (jbin (+) (byte_at px (i + 2)) (Some adj))) pal) k))"

text \<open>The strength bands of the ordered dithering and the offset of a pixel, as the
  specification words them: the matrix value divided by \<open>size\<^sup>2\<close>, minus one half, times
  \<open>(strength / 100) * size\<^sup>2 / 2\<close>.\<close>

definition band_size :: "rat \<Rightarrow> nat" where
  "band_size s = (if s \<le> 333 / 10 then 2 else if s \<le> 666 / 10 then 4 else 8)"

definition band_matrix :: "rat \<Rightarrow> rat list list" where
  "band_matrix s =
     (if s \<le> 333 / 10 then BAYER_MATRICES ''2x2''
      else if s \<le> 666 / 10 then BAYER_MATRICES ''4x4''
      else BAYER_MATRICES ''8x8'')"


text \<open>The quantities of one round of the error diffusion at scratch index \<open>i\<close>: the clamped
  channel, the matched palette color and the error of channel \<open>c\<close>.\<close>

definition fs_old :: "jsnum list \<Rightarrow> nat \<Rightarrow> nat \<Rightarrow> jsnum" where
  "fs_old d i c = clamp255 (num_at d (i + c))"

definition fs_new :: "palette option \<Rightarrow> jsnum list \<Rightarrow> nat \<Rightarrow> jsnum list" where
  "fs_new pal d i = findClosestPaletteColor (fs_old d i 0) (fs_old d i 1) (fs_old d i 2) pal"

definition fs_err :: "palette option \<Rightarrow> jsnum list \<Rightarrow> nat \<Rightarrow> nat \<Rightarrow> jsnum" where
  "fs_err pal d i c = jbin (-) (fs_old d i c) (elem (fs_new pal d i) c)"



text \<open>The range of channel \<open>k\<close> over a bucket, maximum minus minimum, as the specification
  words it.\<close>

definition chan_range :: "int \<Rightarrow> pixel list \<Rightarrow> int" where
  "chan_range k b = Max (chan k ` set b) - Min (chan k ` set b)"

text \<open>The largest of the three channel ranges of a bucket.\<close>

definition max_range :: "pixel list \<Rightarrow> int" where
  "max_range b = max (chan_range 0 b) (max (chan_range 1 b) (chan_range 2 b))"

text \<open>What holds of \<open>(bestBucketIndex, maxRange, splitDimension)\<close> after the search has
  looked at the first \<open>n\<close> buckets.\<close>

definition best_so_far :: "pixel list list \<Rightarrow> nat \<Rightarrow> int \<times> int \<times> int \<Rightarrow> bool" where
  "best_so_far bs n st =
     (case st of (bi, mr, sd) \<Rightarrow>
        (bi = - 1 \<and> mr = - 1 \<and> (\<forall>j<n. length (bs ! j) \<le> 1)) \<or>
        (0 \<le> bi \<and> nat bi < n \<and> 1 < length (bs ! nat bi) \<and> mr = max_range (bs ! nat bi) \<and>
         (sd = 0 \<and> chan_range 0 (bs ! nat bi) = mr \<or>
          sd = 1 \<and> chan_range 1 (bs ! nat bi) = mr \<and> chan_range 0 (bs ! nat bi) < mr \<or>
          sd = 2 \<and> chan_range 2 (bs ! nat bi) = mr \<and> chan_range 0 (bs ! nat bi) < mr
                 \<and> chan_range 1 (bs ! nat bi) < mr) \<and>
         (\<forall>j<n. 1 < length (bs ! j) \<longrightarrow> max_range (bs ! j) \<le> mr) \<and>
         (\<forall>j<nat bi. 1 < length (bs ! j) \<longrightarrow> max_range (bs ! j) < mr)))"

section \<open>Numbers and bytes\<close>

lemma floor_int_plus_half: "\<lfloor>(of_int k :: rat) + 1/2\<rfloor> = k"
  by (rule floor_unique) simp_all

lemma jround_of_nat: "jround (Some (of_nat n)) = Some (of_nat n)"
  using floor_int_plus_half[of "int n"] by (simp add: jround_def)

lemma unat_lt_256: "unat (w :: byte) < 256"
  using unsigned_less[of w, where ?'a = nat] by simp

lemma ToUint8Clamp_of_nat:
  assumes "n < 256"
  shows "ToUint8Clamp (Some (of_nat n)) = of_nat n"
proof -
  consider "n = 0" | "n = 255" | "0 < n" "n < 255" using assms by linarith
  then show ?thesis
  proof cases
    case 1
    then show ?thesis by (simp add: ToUint8Clamp_def)
  next
    case 2
    then show ?thesis by (simp add: ToUint8Clamp_def)
  next
    case 3
    then have "\<not> (of_nat n :: rat) \<le> 0" "\<not> 255 \<le> (of_nat n :: rat)" by simp_all
    then show ?thesis by (simp add: ToUint8Clamp_def Let_def)
  qed
qed

lemma ToUint8Clamp_byte: "ToUint8Clamp (Some (of_nat (unat w))) = w"
  using ToUint8Clamp_of_nat[OF unat_lt_256, of w] by simp

lemma ToUint8Clamp_unsigned: "ToUint8Clamp (Some (unsigned (w :: byte))) = w"
  using ToUint8Clamp_byte[of w] by simp

lemma ToUint8Clamp_byte_at: "i < length xs \<Longrightarrow> ToUint8Clamp (byte_at xs i) = xs ! i"
  by (simp add: byte_at_def ToUint8Clamp_unsigned)

lemma byte_at_eq_Some_0: "byte_at xs i = Some 0 \<longleftrightarrow> i < length xs \<and> xs ! i = 0"
  by (auto simp: byte_at_def unsigned_eq_0_iff)

lemma length_write4 [simp]: "length (write4 xs i v0 v1 v2 v3) = length xs"
  by (simp add: write4_def)

lemma write4_nth_other:
  "j < i \<or> i + 4 \<le> j \<Longrightarrow> write4 xs i v0 v1 v2 v3 ! j = xs ! j"
  by (auto simp: write4_def)

lemma write4_nth_0: "i < length xs \<Longrightarrow> write4 xs i v0 v1 v2 v3 ! i = v0"
  by (simp add: write4_def)

lemma write4_nth_1: "i + 1 < length xs \<Longrightarrow> write4 xs i v0 v1 v2 v3 ! (i + 1) = v1"
  by (simp add: write4_def)

lemma write4_nth_2: "i + 2 < length xs \<Longrightarrow> write4 xs i v0 v1 v2 v3 ! (i + 2) = v2"
  by (simp add: write4_def)

lemma write4_nth_3: "i + 3 < length xs \<Longrightarrow> write4 xs i v0 v1 v2 v3 ! (i + 3) = v3"
  by (simp add: write4_def)

lemma write4_nth_rgb:
  assumes "k < 3" "i + k < length xs"
  shows "write4 xs i (f 0) (f 1) (f 2) v3 ! (i + k) = f k"
proof -
  from assms(1) consider "k = 0" | "k = 1" | "k = 2" by linarith
  then show ?thesis
    using assms(2) by cases (simp_all add: write4_def)
qed

lemma write4_nth_same:
  assumes "i \<le> j" "j < i + 4" "j < length xs" "length ys = length xs"
  shows "write4 xs i v0 v1 v2 v3 ! j = write4 ys i v0 v1 v2 v3 ! j"
proof -
  from assms(1,2) consider "j = i" | "j = i + 1" | "j = i + 2" | "j = i + 3" by linarith
  then show ?thesis
    using assms(3,4) by cases (simp_all add: write4_def)
qed

lemma pixel_offset:
  assumes "4 dvd (i :: nat)" "k < 4"
  shows "(i + k) mod 4 = k" "(i + k) - (i + k) mod 4 = i"
proof -
  from assms(1) obtain m where "i = 4 * m" by (auto elim: dvdE)
  then show "(i + k) mod 4 = k" using assms(2) by simp
  then show "(i + k) - (i + k) mod 4 = i" by simp
qed

lemma pixel_start:
  assumes "4 dvd (i :: nat)" "i \<le> j" "j < i + 4"
  shows "j - j mod 4 = i"
proof -
  from assms(2,3) obtain k where "j = i + k" "k < 4"
    by (metis le_Suc_ex nat_add_left_cancel_less)
  then show ?thesis using pixel_offset(2)[OF assms(1), of k] by simp
qed

lemma pixel_split:
  "j = (j - j mod 4) + j mod 4" "j mod 4 < 4" "4 dvd j - j mod (4 :: nat)"
  by (simp_all add: dvd_minus_mod)

section \<open>Strength 0 of the ordered dithering\<close>

lemma bayer_zero_pixel_eq: "bayer_zero_pixel p pal i nd = applyPalette_pixel p pal i nd"
  by (simp add: bayer_zero_pixel_def applyPalette_pixel_def)

lemma bayer_zero_loop_eq: "bayer_zero_loop p pal i nd = applyPalette_loop p pal i nd"
proof (induction p pal i nd rule: applyPalette_loop.induct)
  case (1 p pal i nd)
  show ?case
  proof (cases "i < length p")
    case True
    with "1" show ?thesis
      by (subst bayer_zero_loop.simps, subst applyPalette_loop.simps)
         (simp add: bayer_zero_pixel_eq)
  next
    case False
    then show ?thesis
      by (subst bayer_zero_loop.simps, subst applyPalette_loop.simps) simp
  qed
qed

lemma applyPalette_loop_done: "length p \<le> i \<Longrightarrow> applyPalette_loop p pal i nd = nd"
  by (subst applyPalette_loop.simps) simp

lemma applyBayerDithering_zero:
  "pal \<noteq> [] \<Longrightarrow> pixels \<noteq> [] \<Longrightarrow>
   applyBayerDithering pixels width height (Some pal) 0 =
     bayer_zero_loop pixels (Some pal) 0 (replicate (length pixels) 0)"
  unfolding applyBayerDithering_def
  by (simp only: Let_def option.case) simp

text \<open>
  C3. With strength 0, \<open>applyBayerDithering\<close> returns the buffer \<open>applyPalette\<close> returns, for
  every buffer, width, height and palette (missing and empty palettes included: both return
  the input).
\<close>

theorem bayer_strength_zero_is_applyPalette:
  "applyBayerDithering pixels width height palette 0 = applyPalette pixels palette"
proof (cases palette)
  case None
  then show ?thesis by (simp add: applyBayerDithering_def applyPalette_def)
next
  case (Some pal)
  show ?thesis
  proof (cases "pal = []")
    case True
    then show ?thesis
      using Some by (simp add: applyBayerDithering_def applyPalette_def)
  next
    case pal: False
    show ?thesis
    proof (cases "pixels = []")
      case True
      then show ?thesis
        using Some by (simp add: applyBayerDithering_def applyPalette_def applyPalette_loop_done)
    next
      case False
      then show ?thesis
        using Some pal
        by (simp add: applyBayerDithering_zero bayer_zero_loop_eq applyPalette_def)
    qed
  qed
qed

section \<open>Nearest-color matching\<close>

lemma colorDistanceSquared_Some:
  "colorDistanceSquared (Some r) (Some g) (Some b) (Some x) (Some y) (Some z)
     = Some ((r - x) * (r - x) + (g - y) * (g - y) + (b - z) * (b - z))"
  by (simp add: colorDistanceSquared_def jbin_def Let_def)

lemma closest_loop_spec:
  "\<exists>c'. closest_loop (Some r) (Some g) (Some b) cs (Some (dist2 r g b c0), c0)
           = (Some (dist2 r g b c'), c') \<and>
     ((c' = c0 \<and> (\<forall>j<length cs. validEntry (cs ! j) \<longrightarrow> dist2 r g b c0 \<le> dist2 r g b (cs ! j)))
      \<or> (\<exists>k<length cs. c' = cs ! k \<and> validEntry (cs ! k) \<and> dist2 r g b c' < dist2 r g b c0 \<and>
            (\<forall>j<k. validEntry (cs ! j) \<longrightarrow> dist2 r g b c' < dist2 r g b (cs ! j)) \<and>
            (\<forall>j<length cs. validEntry (cs ! j) \<longrightarrow> dist2 r g b c' \<le> dist2 r g b (cs ! j))))"
proof (induction cs arbitrary: c0)
  case Nil
  then show ?case by simp
next
  case (Cons c cs)
  let ?D = "dist2 r g b"
  show ?case
  proof (cases "validEntry c \<and> ?D c < ?D c0")
    case True
    then have step: "closest_loop (Some r) (Some g) (Some b) (c # cs) (Some (?D c0), c0)
        = closest_loop (Some r) (Some g) (Some b) cs (Some (?D c), c)"
      by (simp add: colorDistanceSquared_Some jlt_def dist2_def)
    from Cons.IH[of c] obtain c' where
      eq: "closest_loop (Some r) (Some g) (Some b) cs (Some (?D c), c) = (Some (?D c'), c')"
      and alt: "(c' = c \<and> (\<forall>j<length cs. validEntry (cs ! j) \<longrightarrow> ?D c \<le> ?D (cs ! j)))
      \<or> (\<exists>k<length cs. c' = cs ! k \<and> validEntry (cs ! k) \<and> ?D c' < ?D c \<and>
            (\<forall>j<k. validEntry (cs ! j) \<longrightarrow> ?D c' < ?D (cs ! j)) \<and>
            (\<forall>j<length cs. validEntry (cs ! j) \<longrightarrow> ?D c' \<le> ?D (cs ! j)))"
      by blast
    from alt show ?thesis
    proof
      assume a: "c' = c \<and> (\<forall>j<length cs. validEntry (cs ! j) \<longrightarrow> ?D c \<le> ?D (cs ! j))"
      have "\<exists>k<length (c # cs). c' = (c # cs) ! k \<and> validEntry ((c # cs) ! k) \<and> ?D c' < ?D c0 \<and>
            (\<forall>j<k. validEntry ((c # cs) ! j) \<longrightarrow> ?D c' < ?D ((c # cs) ! j)) \<and>
            (\<forall>j<length (c # cs). validEntry ((c # cs) ! j) \<longrightarrow> ?D c' \<le> ?D ((c # cs) ! j))"
        using a True by (intro exI[of _ 0]) (auto simp: nth_Cons split: nat.splits)
      with step eq show ?thesis by auto
    next
      assume "\<exists>k<length cs. c' = cs ! k \<and> validEntry (cs ! k) \<and> ?D c' < ?D c \<and>
            (\<forall>j<k. validEntry (cs ! j) \<longrightarrow> ?D c' < ?D (cs ! j)) \<and>
            (\<forall>j<length cs. validEntry (cs ! j) \<longrightarrow> ?D c' \<le> ?D (cs ! j))"
      then obtain k where k: "k < length cs" "c' = cs ! k" "validEntry (cs ! k)" "?D c' < ?D c"
            "\<forall>j<k. validEntry (cs ! j) \<longrightarrow> ?D c' < ?D (cs ! j)"
            "\<forall>j<length cs. validEntry (cs ! j) \<longrightarrow> ?D c' \<le> ?D (cs ! j)" by blast
      have "\<exists>k<length (c # cs). c' = (c # cs) ! k \<and> validEntry ((c # cs) ! k) \<and> ?D c' < ?D c0 \<and>
            (\<forall>j<k. validEntry ((c # cs) ! j) \<longrightarrow> ?D c' < ?D ((c # cs) ! j)) \<and>
            (\<forall>j<length (c # cs). validEntry ((c # cs) ! j) \<longrightarrow> ?D c' \<le> ?D ((c # cs) ! j))"
        using k True by (intro exI[of _ "Suc k"]) (auto simp: nth_Cons split: nat.splits)
      with step eq show ?thesis by auto
    qed
  next
    case False
    then have step: "closest_loop (Some r) (Some g) (Some b) (c # cs) (Some (?D c0), c0)
        = closest_loop (Some r) (Some g) (Some b) cs (Some (?D c0), c0)"
      by (auto simp add: colorDistanceSquared_Some jlt_def dist2_def)
    from Cons.IH[of c0] obtain c' where
      eq: "closest_loop (Some r) (Some g) (Some b) cs (Some (?D c0), c0) = (Some (?D c'), c')"
      and alt: "(c' = c0 \<and> (\<forall>j<length cs. validEntry (cs ! j) \<longrightarrow> ?D c0 \<le> ?D (cs ! j)))
      \<or> (\<exists>k<length cs. c' = cs ! k \<and> validEntry (cs ! k) \<and> ?D c' < ?D c0 \<and>
            (\<forall>j<k. validEntry (cs ! j) \<longrightarrow> ?D c' < ?D (cs ! j)) \<and>
            (\<forall>j<length cs. validEntry (cs ! j) \<longrightarrow> ?D c' \<le> ?D (cs ! j)))"
      by blast
    from alt show ?thesis
    proof
      assume a: "c' = c0 \<and> (\<forall>j<length cs. validEntry (cs ! j) \<longrightarrow> ?D c0 \<le> ?D (cs ! j))"
      have "c' = c0 \<and> (\<forall>j<length (c # cs). validEntry ((c # cs) ! j) \<longrightarrow> ?D c0 \<le> ?D ((c # cs) ! j))"
        using a False by (auto simp: nth_Cons split: nat.splits)
      with step eq show ?thesis by auto
    next
      assume "\<exists>k<length cs. c' = cs ! k \<and> validEntry (cs ! k) \<and> ?D c' < ?D c0 \<and>
            (\<forall>j<k. validEntry (cs ! j) \<longrightarrow> ?D c' < ?D (cs ! j)) \<and>
            (\<forall>j<length cs. validEntry (cs ! j) \<longrightarrow> ?D c' \<le> ?D (cs ! j))"
      then obtain k where k: "k < length cs" "c' = cs ! k" "validEntry (cs ! k)" "?D c' < ?D c0"
            "\<forall>j<k. validEntry (cs ! j) \<longrightarrow> ?D c' < ?D (cs ! j)"
            "\<forall>j<length cs. validEntry (cs ! j) \<longrightarrow> ?D c' \<le> ?D (cs ! j)" by blast
      have "\<exists>k<length (c # cs). c' = (c # cs) ! k \<and> validEntry ((c # cs) ! k) \<and> ?D c' < ?D c0 \<and>
            (\<forall>j<k. validEntry ((c # cs) ! j) \<longrightarrow> ?D c' < ?D ((c # cs) ! j)) \<and>
            (\<forall>j<length (c # cs). validEntry ((c # cs) ! j) \<longrightarrow> ?D c' \<le> ?D ((c # cs) ! j))"
        using k False by (intro exI[of _ "Suc k"]) (auto simp: nth_Cons split: nat.splits)
      with step eq show ?thesis by auto
    qed
  qed
qed



section \<open>Empty and missing palettes\<close>




section \<open>The loop of applyPalette, pixel by pixel\<close>

lemma applyPalette_pixel_write4:
  "applyPalette_pixel px pal i nd =
     (if byte_at px (i + 3) = Some 0 then write4 nd i 0 0 0 0
      else write4 nd i
             (ToUint8Clamp (elem (findClosestPaletteColor (byte_at px i) (byte_at px (i + 1))
                                    (byte_at px (i + 2)) pal) 0))
             (ToUint8Clamp (elem (findClosestPaletteColor (byte_at px i) (byte_at px (i + 1))
                                    (byte_at px (i + 2)) pal) 1))
             (ToUint8Clamp (elem (findClosestPaletteColor (byte_at px i) (byte_at px (i + 1))
                                    (byte_at px (i + 2)) pal) 2))
             (ToUint8Clamp (byte_at px (i + 3))))"
  by (simp add: applyPalette_pixel_def write4_def Let_def)

lemma applyPalette_pixel_length [simp]:
  "length (applyPalette_pixel px pal i nd) = length nd"
  by (simp add: applyPalette_pixel_write4)

lemma applyPalette_pixel_other:
  "j < i \<or> i + 4 \<le> j \<Longrightarrow> applyPalette_pixel px pal i nd ! j = nd ! j"
  by (simp add: applyPalette_pixel_write4 write4_nth_other)

lemma applyPalette_pixel_same:
  assumes "i \<le> j" "j < i + 4" "j < length nd" "length nd' = length nd"
  shows "applyPalette_pixel px pal i nd ! j = applyPalette_pixel px pal i nd' ! j"
  using write4_nth_same[OF assms] by (simp add: applyPalette_pixel_write4)

lemma applyPalette_loop_length:
  "length (applyPalette_loop px pal i nd) = length nd"
proof (induction px pal i nd rule: applyPalette_loop.induct)
  case (1 px pal i nd)
  then show ?case by (subst applyPalette_loop.simps) simp
qed

lemma applyPalette_loop_nth:
  assumes "length nd = length px" "4 dvd i" "j < length px"
  shows "applyPalette_loop px pal i nd ! j =
           (if j < i then nd ! j
            else applyPalette_pixel px pal (j - j mod 4) (replicate (length px) 0) ! j)"
  using assms
proof (induction px pal i nd rule: applyPalette_loop.induct)
  case (1 px pal i nd)
  show ?case
  proof (cases "i < length px")
    case False
    with "1.prems" show ?thesis by (subst applyPalette_loop.simps) simp
  next
    case True
    have dvd: "4 dvd i + 4" using "1.prems"(2) by simp
    have step: "applyPalette_loop px pal i nd ! j =
        (if j < i + 4 then applyPalette_pixel px pal i nd ! j
         else applyPalette_pixel px pal (j - j mod 4) (replicate (length px) 0) ! j)"
      using "1.IH"[OF True _ dvd "1.prems"(3)] True "1.prems"(1)
      by (subst applyPalette_loop.simps) simp
    show ?thesis
    proof (cases "j < i")
      case True
      then show ?thesis using step by (simp add: applyPalette_pixel_other)
    next
      case False
      show ?thesis
      proof (cases "j < i + 4")
        case far: False
        then show ?thesis using step False by simp
      next
        case near: True
        have i: "j - j mod 4 = i" using False near "1.prems"(2) by (intro pixel_start) simp_all
        have "applyPalette_pixel px pal i nd ! j
                = applyPalette_pixel px pal i (replicate (length px) 0) ! j"
          using False near "1.prems" by (intro applyPalette_pixel_same) simp_all
        then show ?thesis
          using step False near i by simp
      qed
    qed
  qed
qed

lemma applyPalette_length: "length (applyPalette px pal) = length px"
  by (simp add: applyPalette_def applyPalette_loop_length split: option.splits)

lemma applyPalette_nth:
  assumes "pal \<noteq> []" "j < length px"
  shows "applyPalette px (Some pal) ! j =
           applyPalette_pixel px (Some pal) (j - j mod 4) (replicate (length px) 0) ! j"
  using assms by (simp add: applyPalette_def applyPalette_loop_nth)

section \<open>What findClosestPaletteColor returns on any palette\<close>

lemma colorDistanceSquared_None:
  "r = None \<or> g = None \<or> b = None \<Longrightarrow> colorDistanceSquared r g b x y z = None"
  by (auto simp: colorDistanceSquared_def jbin_def Let_def split: option.splits)

lemma closest_loop_None: "closest_loop r g b cs (None, c0) = (None, c0)"
  by (induction cs) (simp_all add: jlt_def Let_def split: option.splits)

lemma candidates_valid: "c \<in> set (candidates pal) \<Longrightarrow> validEntry c"
  by (auto simp: candidates_def validEntry_def split: if_splits)

lemma findClosestPaletteColor_NaN:
  assumes "pal \<noteq> []" "r = None \<or> g = None \<or> b = None"
  shows "findClosestPaletteColor r g b (Some pal) = map Some (hd (candidates pal))"
  using assms
  by (simp add: findClosestPaletteColor_def colorDistanceSquared_None closest_loop_None
        candidates_def Let_def)

lemma findClosestPaletteColor_candidate:
  assumes "pal \<noteq> []"
  shows "\<exists>c\<in>set (candidates pal).
           findClosestPaletteColor (Some r) (Some g) (Some b) (Some pal) = map Some c \<and>
           (\<forall>c'\<in>set (candidates pal). dist2 r g b c \<le> dist2 r g b c')"
proof -
  let ?D = "dist2 r g b"
  from assms obtain p0 cs where pal: "pal = p0 # cs" by (cases pal) auto
  define c0 where "c0 = (if validEntry p0 then p0 else [0, 0, 0])"
  have cand: "candidates pal = c0 # filter validEntry cs"
    by (simp add: candidates_def pal c0_def)
  have unfold: "findClosestPaletteColor (Some r) (Some g) (Some b) (Some pal)
      = map Some (snd (closest_loop (Some r) (Some g) (Some b) cs (Some (?D c0), c0)))"
    by (simp add: findClosestPaletteColor_def pal colorDistanceSquared_Some dist2_def c0_def)
  from closest_loop_spec[of r g b cs c0] obtain c' where
    eq: "closest_loop (Some r) (Some g) (Some b) cs (Some (?D c0), c0) = (Some (?D c'), c')"
    and alt: "(c' = c0 \<and> (\<forall>j<length cs. validEntry (cs ! j) \<longrightarrow> ?D c0 \<le> ?D (cs ! j)))
      \<or> (\<exists>k<length cs. c' = cs ! k \<and> validEntry (cs ! k) \<and> ?D c' < ?D c0 \<and>
            (\<forall>j<k. validEntry (cs ! j) \<longrightarrow> ?D c' < ?D (cs ! j)) \<and>
            (\<forall>j<length cs. validEntry (cs ! j) \<longrightarrow> ?D c' \<le> ?D (cs ! j)))"
    by blast
  have min_cs: "?D c' \<le> ?D x" if "x \<in> set cs" "validEntry x" for x
  proof -
    from that(1) obtain j where "j < length cs" "x = cs ! j" by (auto simp: in_set_conv_nth)
    with alt that(2) show ?thesis by force
  qed
  have min_c0: "?D c' \<le> ?D c0" using alt by auto
  have mem: "c' \<in> set (candidates pal)" using alt cand by auto
  show ?thesis
    using mem unfold eq min_cs min_c0 cand by (intro bexI[of _ c']) auto
qed

lemma dist2_zero:
  assumes "dist2 r g b c = 0"
  shows "c ! 0 = r \<and> c ! 1 = g \<and> c ! 2 = b"
proof -
  have "(r - c ! 0) * (r - c ! 0) + (g - c ! 1) * (g - c ! 1) + (b - c ! 2) * (b - c ! 2) = 0"
    using assms by (simp add: dist2_def)
  then have "r - c ! 0 = 0 \<and> g - c ! 1 = 0 \<and> b - c ! 2 = 0"
    by (simp add: sum_squares_eq_zero_iff add_nonneg_eq_0_iff)
  then show ?thesis by simp
qed

lemma dist2_self: "dist2 (c ! 0) (c ! 1) (c ! 2) c = 0"
  by (simp add: dist2_def)

lemma dist2_nonneg: "0 \<le> dist2 r g b c"
  by (simp add: dist2_def)

text \<open>Matching a color of the palette returns a color with the same three components.\<close>

lemma findClosestPaletteColor_fixpoint:
  assumes "pal \<noteq> []" "c \<in> set (candidates pal)"
  shows "\<exists>c'\<in>set (candidates pal).
           findClosestPaletteColor (Some (c ! 0)) (Some (c ! 1)) (Some (c ! 2)) (Some pal) = map Some c' \<and>
           c' ! 0 = c ! 0 \<and> c' ! 1 = c ! 1 \<and> c' ! 2 = c ! 2"
proof -
  from findClosestPaletteColor_candidate[OF assms(1), of "c ! 0" "c ! 1" "c ! 2"]
  obtain c' where c': "c' \<in> set (candidates pal)"
     "findClosestPaletteColor (Some (c ! 0)) (Some (c ! 1)) (Some (c ! 2)) (Some pal) = map Some c'"
     "\<forall>x\<in>set (candidates pal). dist2 (c ! 0) (c ! 1) (c ! 2) c' \<le> dist2 (c ! 0) (c ! 1) (c ! 2) x"
    by blast
  from c'(3) assms(2) have "dist2 (c ! 0) (c ! 1) (c ! 2) c' \<le> 0"
    using dist2_self[of c] by force
  then have "dist2 (c ! 0) (c ! 1) (c ! 2) c' = 0"
    using dist2_nonneg[of "c ! 0" "c ! 1" "c ! 2" c'] by linarith
  from dist2_zero[OF this] c'(1,2) show ?thesis by blast
qed

section \<open>Idempotence of applyPalette\<close>

lemma applyPalette_pixel_nth_alpha:
  assumes "i + 3 < length nd" "i + 3 < length px"
  shows "applyPalette_pixel px pal i nd ! (i + 3) = px ! (i + 3)"
  using assms
  by (simp add: applyPalette_pixel_write4 write4_nth_3 ToUint8Clamp_byte_at byte_at_eq_Some_0)

lemma applyPalette_pixel_nth_rgb:
  assumes "k < 3" "i + k < length nd"
  shows "applyPalette_pixel px pal i nd ! (i + k) =
           (if byte_at px (i + 3) = Some 0 then 0
            else ToUint8Clamp (elem (findClosestPaletteColor (byte_at px i) (byte_at px (i + 1))
                                       (byte_at px (i + 2)) pal) k))"
  using write4_nth_rgb[OF assms, where f = "\<lambda>k. 0"]
        write4_nth_rgb[OF assms, where f = "\<lambda>k. ToUint8Clamp (elem (findClosestPaletteColor
           (byte_at px i) (byte_at px (i + 1)) (byte_at px (i + 2)) pal) k)"]
  by (simp add: applyPalette_pixel_write4)

lemma byte_valued_black: "byte_valued [0, 0, 0]"
  unfolding byte_valued_def
proof (intro allI impI)
  fix k :: nat
  assume "k < 3"
  then consider "k = 0" | "k = 1" | "k = 2" by linarith
  then have "[0, 0, 0 :: rat] ! k = of_nat 0" by cases simp_all
  then show "\<exists>n<256. [0, 0, 0 :: rat] ! k = of_nat n" by (intro exI[of _ 0]) simp
qed

lemma candidates_byte_valued:
  assumes "integral_palette pal" "pal \<noteq> []" "c \<in> set (candidates pal)"
  shows "byte_valued c"
proof -
  from assms(2) have "pal ! 0 \<in> set pal" by simp
  moreover have "set (tl pal) \<subseteq> set pal" using assms(2) by (cases pal) auto
  ultimately show ?thesis
    using assms(1,3) byte_valued_black
    by (auto simp: candidates_def integral_palette_def split: if_splits)
qed

lemma byte_valued_roundtrip:
  assumes "byte_valued c" "k < 3"
  shows "(unsigned (ToUint8Clamp (Some (c ! k))) :: rat) = c ! k"
proof -
  from assms obtain n where n: "n < 256" "c ! k = of_nat n" by (auto simp: byte_valued_def)
  have "(unsigned (of_nat n :: byte) :: rat) = of_nat n"
    using n(1) by (simp add: unsigned_of_nat take_bit_nat_eq_self)
  then show ?thesis using n by (simp add: ToUint8Clamp_of_nat)
qed

lemma elem_map_Some: "validEntry c \<Longrightarrow> k < 3 \<Longrightarrow> elem (map Some c) k = Some (c ! k)"
  by (simp add: elem_def validEntry_def)

text \<open>The pixel written for a pixel that the first pass wrote is that pixel again.\<close>

lemma requantize_rgb:
  assumes pal: "pal \<noteq> []" "integral_palette pal"
    and r: "r' = map_option (\<lambda>x. unsigned (ToUint8Clamp (elem (findClosestPaletteColor r g b (Some pal)) 0))) r"
    and g: "g' = map_option (\<lambda>x. unsigned (ToUint8Clamp (elem (findClosestPaletteColor r g b (Some pal)) 1))) g"
    and b: "b' = map_option (\<lambda>x. unsigned (ToUint8Clamp (elem (findClosestPaletteColor r g b (Some pal)) 2))) b"
    and k: "k < 3"
  shows "ToUint8Clamp (elem (findClosestPaletteColor r' g' b' (Some pal)) k)
           = ToUint8Clamp (elem (findClosestPaletteColor r g b (Some pal)) k)"
proof (cases "r = None \<or> g = None \<or> b = None")
  case True
  then have "r' = None \<or> g' = None \<or> b' = None" using r g b by auto
  then show ?thesis using True pal(1) by (simp add: findClosestPaletteColor_NaN)
next
  case False
  then obtain x y z where xyz: "r = Some x" "g = Some y" "b = Some z" by auto
  from findClosestPaletteColor_candidate[OF pal(1), of x y z]
  obtain c where c: "c \<in> set (candidates pal)"
     "findClosestPaletteColor r g b (Some pal) = map Some c"
    using xyz by blast
  have bv: "byte_valued c" using candidates_byte_valued[OF pal(2,1) c(1)] .
  have vc: "validEntry c" using candidates_valid[OF c(1)] .
  have r': "r' = Some (c ! 0)" and g': "g' = Some (c ! 1)" and b': "b' = Some (c ! 2)"
    using r g b xyz c(2) vc bv by (simp_all add: elem_map_Some byte_valued_roundtrip)
  from findClosestPaletteColor_fixpoint[OF pal(1) c(1)]
  obtain c' where c': "c' \<in> set (candidates pal)"
     "findClosestPaletteColor r' g' b' (Some pal) = map Some c'"
     "c' ! 0 = c ! 0" "c' ! 1 = c ! 1" "c' ! 2 = c ! 2"
    using r' g' b' by auto
  have vc': "validEntry c'" using candidates_valid[OF c'(1)] .
  from k consider "k = 0" | "k = 1" | "k = 2" by linarith
  then have "c' ! k = c ! k" using c'(3-5) by cases simp_all
  then show ?thesis using c(2) c'(2) vc vc' k by (simp add: elem_map_Some)
qed

lemma byte_at_applyPalette_rgb:
  assumes "pal \<noteq> []" "k < 3" "4 dvd i"
  shows "byte_at (applyPalette px (Some pal)) (i + k) =
           map_option (\<lambda>x. unsigned
              (if byte_at px (i + 3) = Some 0 then 0
               else ToUint8Clamp (elem (findClosestPaletteColor (byte_at px i) (byte_at px (i + 1))
                                       (byte_at px (i + 2)) (Some pal)) k)))
             (byte_at px (i + k))"
proof (cases "i + k < length px")
  case False
  then show ?thesis by (simp add: byte_at_def applyPalette_length)
next
  case True
  have "(i + k) - (i + k) mod 4 = i" using assms(2,3) by (intro pixel_offset) simp_all
  then show ?thesis
    using True assms(1,2)
    by (simp add: byte_at_def applyPalette_length applyPalette_nth applyPalette_pixel_nth_rgb)
qed

lemma byte_at_applyPalette_alpha:
  assumes "pal \<noteq> []" "4 dvd i"
  shows "byte_at (applyPalette px (Some pal)) (i + 3) = byte_at px (i + 3)"
proof (cases "i + 3 < length px")
  case False
  then show ?thesis by (simp add: byte_at_def applyPalette_length)
next
  case True
  have "(i + 3) - (i + 3) mod 4 = i" using assms(2) by (intro pixel_offset) simp_all
  then show ?thesis
    using True assms(1)
    by (simp add: byte_at_def applyPalette_length applyPalette_nth applyPalette_pixel_nth_alpha)
qed

text \<open>
  C8 (as amended). For every pixel buffer and every non-empty palette whose color components
  are integers in [0,255], applying the palette a second time leaves the buffer unchanged.
\<close>

theorem applyPalette_idempotent:
  assumes "palette \<noteq> []" and "integral_palette palette"
  shows "applyPalette (applyPalette pixels (Some palette)) (Some palette)
           = applyPalette pixels (Some palette)"
proof (rule nth_equalityI)
  show "length (applyPalette (applyPalette pixels (Some palette)) (Some palette))
          = length (applyPalette pixels (Some palette))"
    by (simp add: applyPalette_length)
next
  fix j
  let ?out = "applyPalette pixels (Some palette)"
  let ?Z = "replicate (length pixels) (0 :: byte)"
  assume "j < length (applyPalette ?out (Some palette))"
  then have j: "j < length pixels" by (simp add: applyPalette_length)
  obtain i k where ik: "j = i + k" "k < 4" "4 dvd i" "j - j mod 4 = i"
  proof
    show "j = (j - j mod 4) + j mod 4" "j mod 4 < 4" "4 dvd j - j mod 4" "j - j mod 4 = j - j mod 4"
      by (simp_all add: dvd_minus_mod)
  qed
  have len: "length ?out = length pixels" by (simp add: applyPalette_length)
  have "applyPalette ?out (Some palette) ! j
          = applyPalette_pixel ?out (Some palette) (j - j mod 4) (replicate (length ?out) 0) ! j"
    using j len by (intro applyPalette_nth[OF assms(1)]) simp
  then have lhs: "applyPalette ?out (Some palette) ! (i + k)
          = applyPalette_pixel ?out (Some palette) i ?Z ! (i + k)"
    unfolding ik(4) len unfolding ik(1) .
  have "?out ! j = applyPalette_pixel pixels (Some palette) (j - j mod 4) ?Z ! j"
    using j by (intro applyPalette_nth[OF assms(1)])
  then have rhs: "?out ! (i + k) = applyPalette_pixel pixels (Some palette) i ?Z ! (i + k)"
    unfolding ik(4) unfolding ik(1) .
  have alpha: "byte_at ?out (i + 3) = byte_at pixels (i + 3)"
    using byte_at_applyPalette_alpha[OF assms(1) ik(3)] .
  have in_range: "i + k < length ?Z" using j ik(1) by simp
  have "applyPalette ?out (Some palette) ! (i + k) = ?out ! (i + k)"
  proof (cases "k = 3")
    case True
    then have r3: "i + 3 < length pixels" using j ik(1) by simp
    have "applyPalette_pixel ?out (Some palette) i ?Z ! (i + 3) = ?out ! (i + 3)"
      by (rule applyPalette_pixel_nth_alpha) (simp_all add: len r3)
    then show ?thesis using lhs True by simp
  next
    case False
    then have k3: "k < 3" using ik(2) by simp
    show ?thesis
    proof (cases "byte_at pixels (i + 3) = Some 0")
      case True
      then show ?thesis
        unfolding lhs rhs
        using alpha k3 in_range by (simp add: applyPalette_pixel_nth_rgb)
    next
      case nz: False
      have "ToUint8Clamp (elem (findClosestPaletteColor (byte_at ?out i) (byte_at ?out (i + 1))
                                  (byte_at ?out (i + 2)) (Some palette)) k)
              = ToUint8Clamp (elem (findClosestPaletteColor (byte_at pixels i) (byte_at pixels (i + 1))
                                  (byte_at pixels (i + 2)) (Some palette)) k)"
        using byte_at_applyPalette_rgb[OF assms(1) _ ik(3), of 0 pixels]
              byte_at_applyPalette_rgb[OF assms(1) _ ik(3), of 1 pixels]
              byte_at_applyPalette_rgb[OF assms(1) _ ik(3), of 2 pixels] nz
        by (intro requantize_rgb[OF assms _ _ _ k3]) simp_all
      then show ?thesis
        unfolding lhs rhs
        using alpha k3 in_range nz by (simp add: applyPalette_pixel_nth_rgb)
    qed
  qed
  then show "applyPalette ?out (Some palette) ! j = ?out ! j"
    unfolding ik(1) .
qed

lemma byte_valued_triple:
  assumes "x < 256" "y < 256" "z < 256"
  shows "byte_valued [of_nat x, of_nat y, of_nat z]"
  unfolding byte_valued_def
proof (intro allI impI)
  fix k :: nat
  assume "k < 3"
  then consider "k = 0" | "k = 1" | "k = 2" by linarith
  then show "\<exists>n<256. [of_nat x, of_nat y, of_nat z :: rat] ! k = of_nat n"
    using assms by cases auto
qed

theorem applyPalette_idempotent_witness:
  "applyPalette (applyPalette [128, 128, 128, 255] (Some [[0, 0, 0], [255, 255, 255]]))
       (Some [[0, 0, 0], [255, 255, 255]])
     = applyPalette [128, 128, 128, 255] (Some [[0, 0, 0], [255, 255, 255]])"
proof (rule applyPalette_idempotent)
  show "[[0, 0, 0], [255, 255, 255]] \<noteq> ([] :: palette)" by simp
  have "byte_valued [255, 255, 255]" using byte_valued_triple[of 255 255 255] by simp
  then show "integral_palette [[0, 0, 0], [255, 255, 255]]"
    using byte_valued_black by (simp add: integral_palette_def)
qed

lemma applyPalette_one_pixel:
  "pal \<noteq> [] \<Longrightarrow>
   applyPalette [r, g, b, a] (Some pal) = applyPalette_pixel [r, g, b, a] (Some pal) 0 [0, 0, 0, 0]"
  by (simp add: applyPalette_def applyPalette_loop.simps[of _ _ 0] applyPalette_loop_done
        numeral_eq_Suc)

text \<open>
  The claim as stated fails for a palette with a component that is not an integer, and for
  one with a component outside [0,255]: the byte stored for the chosen entry is then not the
  entry, and it can be nearer to another entry.
\<close>

theorem applyPalette_not_idempotent:
  "applyPalette (applyPalette [1, 1, 1, 255] (Some [[1/2, 1/2, 1/2], [3/5, 0, 0]]))
       (Some [[1/2, 1/2, 1/2], [3/5, 0, 0]])
     \<noteq> applyPalette [1, 1, 1, 255] (Some [[1/2, 1/2, 1/2], [3/5, 0, 0]]) \<and>
   applyPalette (applyPalette [255, 255, 0, 255] (Some [[400, 127, 0], [390, 100, 0]]))
       (Some [[400, 127, 0], [390, 100, 0]])
     \<noteq> applyPalette [255, 255, 0, 255] (Some [[400, 127, 0], [390, 100, 0]])"
proof -
  have fl: "\<lfloor>(1 :: rat) / 2\<rfloor> = 0" "\<lfloor>(3 :: rat) / 5\<rfloor> = 0"
    by (rule floor_unique; simp)+
  have u: "ToUint8Clamp (Some (1/2)) = 0" "ToUint8Clamp (Some (3/5)) = 1"
     "ToUint8Clamp (Some 0) = 0" "ToUint8Clamp (Some 255) = 255"
     "ToUint8Clamp (Some 400) = 255" "ToUint8Clamp (Some 390) = 255"
     "ToUint8Clamp (Some 127) = 127" "ToUint8Clamp (Some 100) = 100"
    by (simp_all add: ToUint8Clamp_def fl)
  have a1: "applyPalette [1, 1, 1, 255] (Some [[1/2, 1/2, 1/2], [3/5, 0, 0]]) = [0, 0, 0, 255]"
    by (simp add: applyPalette_one_pixel applyPalette_pixel_def byte_at_def
          findClosestPaletteColor_def validEntry_def colorDistanceSquared_Some jlt_def
          elem_def u Let_def)
  have a2: "applyPalette [0, 0, 0, 255] (Some [[1/2, 1/2, 1/2], [3/5, 0, 0]]) = [1, 0, 0, 255]"
    by (simp add: applyPalette_one_pixel applyPalette_pixel_def byte_at_def
          findClosestPaletteColor_def validEntry_def colorDistanceSquared_Some jlt_def
          elem_def u Let_def)
  have b1: "applyPalette [255, 255, 0, 255] (Some [[400, 127, 0], [390, 100, 0]])
              = [255, 127, 0, 255]"
    by (simp add: applyPalette_one_pixel applyPalette_pixel_def byte_at_def
          findClosestPaletteColor_def validEntry_def colorDistanceSquared_Some jlt_def
          elem_def u Let_def)
  have b2: "applyPalette [255, 127, 0, 255] (Some [[400, 127, 0], [390, 100, 0]])
              = [255, 100, 0, 255]"
    by (simp add: applyPalette_one_pixel applyPalette_pixel_def byte_at_def
          findClosestPaletteColor_def validEntry_def colorDistanceSquared_Some jlt_def
          elem_def u Let_def)
  show ?thesis
    by (simp only: a1 a2 b1 b2) simp
qed

section \<open>Nested loops over the pixels of an image\<close>

text \<open>The loops \<open>for y < height\<close>, \<open>for x < width\<close> visit the pixels in raster order: pixel
  \<open>p = y * width + x\<close> is the \<open>p\<close>-th one.\<close>

lemma fold_row:
  "fold (\<lambda>p. body (p div w) (p mod w)) [h * w..<h * w + w] s = fold (body h) [0..<w] s"
proof -
  have "[h * w..<h * w + w] = map (\<lambda>x. x + h * w) [0..<w]"
    by (simp add: map_add_upt add.commute)
  then have "fold (\<lambda>p. body (p div w) (p mod w)) [h * w..<h * w + w] s
      = fold ((\<lambda>p. body (p div w) (p mod w)) \<circ> (\<lambda>x. x + h * w)) [0..<w] s"
    by (simp add: fold_map)
  also have "\<dots> = fold (body h) [0..<w] s"
    by (rule fold_cong) auto
  finally show ?thesis .
qed

lemma nested_fold_flat:
  "fold (\<lambda>y. fold (body y) [0..<w]) [0..<h] s
     = fold (\<lambda>p. body (p div w) (p mod w)) [0..<h * w] s"
proof (induction h)
  case 0
  then show ?case by simp
next
  case (Suc h)
  have "[0..<Suc h * w] = [0..<h * w] @ [h * w..<h * w + w]"
    by (metis add.commute le_add1 mult_Suc upt_add_eq_append zero_le)
  then show ?case using Suc by (simp add: fold_row)
qed

lemma fold_upt_invariant:
  assumes "P 0 s" and "\<And>i t. i < n \<Longrightarrow> P i t \<Longrightarrow> P (Suc i) (f i t)"
  shows "P n (fold f [0..<n] s)"
  using assms
proof (induction n)
  case 0
  then show ?case by simp
next
  case (Suc n)
  have "P n (fold f [0..<n] s)" using Suc by simp
  then show ?case using Suc.prems(2)[of n] by simp
qed

lemma raster_div: "x < w \<Longrightarrow> (y * w + x) div w = (y :: nat)"
  by simp

lemma raster_mod: "x < w \<Longrightarrow> (y * w + x) mod w = (x :: nat)"
  by simp

lemma raster_lt: "x < w \<Longrightarrow> y < h \<Longrightarrow> y * w + x < h * (w :: nat)"
proof -
  assume a: "x < w" "y < h"
  then have "y * w + x < Suc y * w" by simp
  also have "\<dots> \<le> h * w" using a(2) by (intro mult_le_mono1) simp
  finally show ?thesis .
qed

lemma write4_nth_fun:
  assumes "k < 4" "i + k < length xs"
  shows "write4 xs i (f 0) (f 1) (f 2) (f 3) ! (i + k) = f k"
proof -
  from assms(1) consider "k = 0" | "k = 1" | "k = 2" | "k = 3" by linarith
  then show ?thesis
    using assms(2) by cases (simp_all add: write4_def)
qed

text \<open>A loop whose \<open>p\<close>-th round stores four values at \<open>4 * p\<close> leaves them there.\<close>

lemma fold_write4:
  assumes body: "\<And>p t. body p t = write4 t (4 * p) (q p 0) (q p 1) (q p 2) (q p 3)"
  shows "length (fold body [0..<n] s) = length s \<and>
         (\<forall>p<n. \<forall>k<4. 4 * p + k < length s \<longrightarrow> fold body [0..<n] s ! (4 * p + k) = q p k)"
proof (rule fold_upt_invariant[where P = "\<lambda>m t. length t = length s \<and>
         (\<forall>p<m. \<forall>k<4. 4 * p + k < length s \<longrightarrow> t ! (4 * p + k) = q p k)"])
  show "length s = length s \<and> (\<forall>p<0. \<forall>k<4. 4 * p + k < length s \<longrightarrow> s ! (4 * p + k) = q p k)"
    by simp
next
  fix i t
  assume i: "i < n"
    and inv: "length t = length s \<and> (\<forall>p<i. \<forall>k<4. 4 * p + k < length s \<longrightarrow> t ! (4 * p + k) = q p k)"
  show "length (body i t) = length s \<and>
        (\<forall>p<Suc i. \<forall>k<4. 4 * p + k < length s \<longrightarrow> body i t ! (4 * p + k) = q p k)"
  proof (intro conjI allI impI)
    show "length (body i t) = length s" using inv by (simp add: body)
  next
    fix p k
    assume p: "p < Suc i" and k: "k < (4 :: nat)" and r: "4 * p + k < length s"
    show "body i t ! (4 * p + k) = q p k"
    proof (cases "p = i")
      case True
      then show ?thesis
        using write4_nth_fun[OF k, of "4 * i" t "q i"] r inv by (simp add: body)
    next
      case False
      then have "p < i" using p by simp
      then have "4 * p + k < 4 * i" using k by simp
      then have "body i t ! (4 * p + k) = t ! (4 * p + k)"
        by (simp add: body write4_nth_other)
      then show ?thesis using inv \<open>p < i\<close> k r by simp
    qed
  qed
qed

section \<open>Ordered dithering, pixel by pixel\<close>

lemma bayer_pixel_write4:
  "bayer_pixel px w pal M sz nrm off y x nd =
     write4 nd ((y * w + x) * 4)
       (bayer_value px w pal M sz nrm off y x 0) (bayer_value px w pal M sz nrm off y x 1)
       (bayer_value px w pal M sz nrm off y x 2) (bayer_value px w pal M sz nrm off y x 3)"
  by (simp add: bayer_pixel_def bayer_value_def write4_def Let_def)

lemma bayer_loop_nth:
  assumes "x < w" "y < h" "k < 4" "(y * w + x) * 4 + k < length nd"
  shows "fold (\<lambda>y. fold (bayer_pixel px w pal M sz nrm off y) [0..<w]) [0..<h] nd
            ! ((y * w + x) * 4 + k)
         = bayer_value px w pal M sz nrm off y x k"
proof -
  let ?B = "bayer_pixel px w pal M sz nrm off"
  let ?q = "\<lambda>p k. bayer_value px w pal M sz nrm off (p div w) (p mod w) k"
  have body: "?B (p div w) (p mod w) t = write4 t (4 * p) (?q p 0) (?q p 1) (?q p 2) (?q p 3)"
    for p t
  proof -
    have "(p div w * w + p mod w) * 4 = 4 * p" by simp
    then show ?thesis by (simp only: bayer_pixel_write4)
  qed
  have p: "y * w + x < h * w" using assms(1,2) by (rule raster_lt)
  have r: "4 * (y * w + x) + k < length nd" using assms(4) by (simp add: mult.commute)
  from fold_write4[of "\<lambda>p. ?B (p div w) (p mod w)" ?q "h * w" nd, OF body] p assms(3) r
  have "fold (\<lambda>p. ?B (p div w) (p mod w)) [0..<h * w] nd ! (4 * (y * w + x) + k)
          = ?q (y * w + x) k"
    by blast
  then show ?thesis
    using assms(1) by (simp add: nested_fold_flat mult.commute)
qed

lemma bayer_loop_length:
  "length (fold (\<lambda>y. fold (bayer_pixel px w pal M sz nrm off y) [0..<w]) [0..<h] nd)
     = length nd"
proof -
  let ?B = "bayer_pixel px w pal M sz nrm off"
  let ?q = "\<lambda>p k. bayer_value px w pal M sz nrm off (p div w) (p mod w) k"
  have body: "?B (p div w) (p mod w) t = write4 t (4 * p) (?q p 0) (?q p 1) (?q p 2) (?q p 3)"
    for p t
  proof -
    have "(p div w * w + p mod w) * 4 = 4 * p" by simp
    then show ?thesis by (simp only: bayer_pixel_write4)
  qed
  from fold_write4[of "\<lambda>p. ?B (p div w) (p mod w)" ?q "h * w" nd, OF body]
  show ?thesis by (simp add: nested_fold_flat)
qed

section \<open>The threshold offset of the ordered dithering\<close>

lemma applyBayerDithering_pos:
  assumes "pal \<noteq> []" "px \<noteq> []" "0 < strength"
  shows "applyBayerDithering px w h (Some pal) strength =
           fold (\<lambda>y. fold (bayer_pixel px w (Some pal) (band_matrix (min 100 strength))
                            (band_size (min 100 strength))
                            (1 / (of_nat (band_size (min 100 strength))
                                  * of_nat (band_size (min 100 strength))))
                            (min 100 strength / 100 * of_nat (band_size (min 100 strength))
                               * of_nat (band_size (min 100 strength)) / 2) y) [0..<w])
             [0..<h] (replicate (length px) 0)"
proof -
  let ?s = "min 100 strength"
  have s: "max 0 ?s = ?s" "?s \<noteq> 0" using assms(3) by simp_all
  show ?thesis
  proof (cases "?s \<le> 333 / 10")
    case True
    then show ?thesis
      unfolding applyBayerDithering_def Let_def band_size_def band_matrix_def
      using assms(1,2) s by simp
  next
    case False
    then show ?thesis
      unfolding applyBayerDithering_def Let_def band_size_def band_matrix_def
      using assms(1,2) s by (cases "?s \<le> 666 / 10") simp_all
  qed
qed





section \<open>Error diffusion, round by round\<close>

lemma add_error_length [simp]: "length (add_error d ni e0 e1 e2 k) = length d"
  by (simp add: add_error_def Let_def)

lemma add_error_other:
  "j < ni \<or> ni + 3 \<le> j \<Longrightarrow> add_error d ni e0 e1 e2 k ! j = d ! j"
  by (auto simp: add_error_def Let_def)


lemma alpha_slot_other:
  assumes "4 dvd (ni :: nat)" "j mod 4 = 3"
  shows "j < ni \<or> ni + 3 \<le> j"
proof (rule ccontr)
  assume "\<not> (j < ni \<or> ni + 3 \<le> j)"
  then obtain c where c: "j = ni + c" "c < 3"
    by (metis le_Suc_ex not_less nat_add_left_cancel_less)
  then have "j mod 4 = c" using pixel_offset(1)[OF assms(1), of c] by simp
  with assms(2) c(2) show False by simp
qed

lemma add_error_alpha:
  "4 dvd ni \<Longrightarrow> j mod 4 = 3 \<Longrightarrow> add_error d ni e0 e1 e2 k ! j = d ! j"
  by (rule add_error_other) (rule alpha_slot_other)

lemma fs_pixel_snd:
  "snd (fs_pixel w h pal y x (d, out)) =
     write4 out ((y * w + x) * 4)
       (if num_at d ((y * w + x) * 4 + 3) = Some 0 then 0
        else ToUint8Clamp (elem (fs_new pal d ((y * w + x) * 4)) 0))
       (if num_at d ((y * w + x) * 4 + 3) = Some 0 then 0
        else ToUint8Clamp (elem (fs_new pal d ((y * w + x) * 4)) 1))
       (if num_at d ((y * w + x) * 4 + 3) = Some 0 then 0
        else ToUint8Clamp (elem (fs_new pal d ((y * w + x) * 4)) 2))
       (if num_at d ((y * w + x) * 4 + 3) = Some 0 then 0
        else ToUint8Clamp (jround (num_at d ((y * w + x) * 4 + 3))))"
  by (simp add: fs_pixel_def fs_new_def fs_old_def write4_def Let_def)

lemma fs_pixel_fst:
  "fst (fs_pixel w h pal y x (d, out)) =
     (let i = (y * w + x) * 4 in
      if num_at d (i + 3) = Some 0 then d
      else
        (let d1 = (if x + 1 < w
                   then add_error d (i + 4) (fs_err pal d i 0) (fs_err pal d i 1) (fs_err pal d i 2) 7
                   else d);
             d2 = (if 1 \<le> x \<and> y + 1 < h
                   then add_error d1 (i + w * 4 - 4) (fs_err pal d i 0) (fs_err pal d i 1) (fs_err pal d i 2) 3
                   else d1);
             d3 = (if y + 1 < h
                   then add_error d2 (i + w * 4) (fs_err pal d i 0) (fs_err pal d i 1) (fs_err pal d i 2) 5
                   else d2)
         in if x + 1 < w \<and> y + 1 < h
            then add_error d3 (i + w * 4 + 4) (fs_err pal d i 0) (fs_err pal d i 1) (fs_err pal d i 2) 1
            else d3))"
proof -
  have "(0 \<le> int x - 1) = (1 \<le> x)" by linarith
  then show ?thesis
    by (simp add: fs_pixel_def fs_err_def fs_new_def fs_old_def Let_def)
qed

lemma fs_pixel_fst_length [simp]: "length (fst (fs_pixel w h pal y x (d, out))) = length d"
  by (simp add: fs_pixel_fst Let_def)

lemma fs_pixel_fst_alpha:
  assumes "j mod 4 = 3"
  shows "fst (fs_pixel w h pal y x (d, out)) ! j = d ! j"
proof -
  let ?i = "(y * w + x) * 4"
  have 1: "4 dvd ?i + 4" and 3: "4 dvd ?i + w * 4" and 4: "4 dvd ?i + w * 4 + 4" by simp_all
  have 2: "4 dvd ?i + w * 4 - 4" if "1 \<le> x"
  proof -
    have "?i + w * 4 - 4 = (y * w + (x - 1) + w) * 4" using that by (simp add: algebra_simps)
    then show ?thesis by simp
  qed
  show ?thesis
    using assms 1 2 3 4 by (simp add: fs_pixel_fst Let_def add_error_alpha)
qed

section \<open>Alpha pass-through of the dithering operations\<close>

lemma applyBayerDithering_nonpos:
  assumes "pal \<noteq> []" "px \<noteq> []" "strength \<le> 0"
  shows "applyBayerDithering px w h (Some pal) strength = applyPalette px (Some pal)"
proof -
  have "max 0 (min 100 strength) = 0" using assms(3) by simp
  then show ?thesis
    unfolding applyBayerDithering_def Let_def
    using assms(1,2) by (simp add: bayer_zero_loop_eq applyPalette_def)
qed

lemma applyPalette_alpha:
  assumes "pal \<noteq> []" "4 * p + 3 < length px"
  shows "applyPalette px (Some pal) ! (4 * p + 3) = px ! (4 * p + 3)"
    and "px ! (4 * p + 3) = 0 \<Longrightarrow> k < 3 \<Longrightarrow> applyPalette px (Some pal) ! (4 * p + k) = 0"
proof -
  have s3: "(4 * p + 3) - (4 * p + 3) mod 4 = 4 * p"
    by (rule pixel_offset) simp_all
  show "applyPalette px (Some pal) ! (4 * p + 3) = px ! (4 * p + 3)"
    using assms by (simp add: applyPalette_nth s3 applyPalette_pixel_nth_alpha)
next
  assume z: "px ! (4 * p + 3) = 0" and k: "k < 3"
  have sk: "(4 * p + k) - (4 * p + k) mod 4 = 4 * p"
    using k by (intro pixel_offset) simp_all
  have "byte_at px (4 * p + 3) = Some 0" using z assms(2) by (simp add: byte_at_eq_Some_0)
  then show "applyPalette px (Some pal) ! (4 * p + k) = 0"
    using assms k by (simp add: applyPalette_nth sk applyPalette_pixel_nth_rgb)
qed

lemma bayer_value_alpha:
  assumes "(y * w + x) * 4 + 3 < length px"
  shows "bayer_value px w pal M sz nrm off y x 3 = px ! ((y * w + x) * 4 + 3)"
    and "px ! ((y * w + x) * 4 + 3) = 0 \<Longrightarrow> bayer_value px w pal M sz nrm off y x k = 0"
  using assms
  by (auto simp: bayer_value_def Let_def byte_at_eq_Some_0 ToUint8Clamp_byte_at)

lemma applyBayerDithering_alpha:
  assumes "pal \<noteq> []" "length px = 4 * w * h" "p < w * h"
  shows "applyBayerDithering px w h (Some pal) strength ! (4 * p + 3) = px ! (4 * p + 3)"
    and "px ! (4 * p + 3) = 0 \<Longrightarrow> k < 3 \<Longrightarrow>
           applyBayerDithering px w h (Some pal) strength ! (4 * p + k) = 0"
proof -
  have r: "4 * p + 3 < length px" using assms(2,3) by simp
  then have ne: "px \<noteq> []" by auto
  have w: "0 < w" using assms(3) by (cases w) simp_all
  define x y where "x = p mod w" and "y = p div w"
  have xy: "x < w" "y < h" "(y * w + x) * 4 = 4 * p"
    using w assms(3) by (simp_all add: x_def y_def less_mult_imp_div_less mult.commute)
  have all: "applyBayerDithering px w h (Some pal) strength ! (4 * p + 3) = px ! (4 * p + 3) \<and>
    (px ! (4 * p + 3) = 0 \<longrightarrow> k < 3 \<longrightarrow> applyBayerDithering px w h (Some pal) strength ! (4 * p + k) = 0)"
  proof (cases "strength \<le> 0")
    case True
    then show ?thesis
      using applyPalette_alpha[OF assms(1) r]
      by (simp add: applyBayerDithering_nonpos[OF assms(1) ne])
  next
    case False
    then have pos: "0 < strength" by simp
    have n3: "applyBayerDithering px w h (Some pal) strength ! ((y * w + x) * 4 + 3)
                = px ! ((y * w + x) * 4 + 3)"
      unfolding applyBayerDithering_pos[OF assms(1) ne pos]
      using r xy by (subst bayer_loop_nth) (simp_all add: bayer_value_alpha)
    have nk: "applyBayerDithering px w h (Some pal) strength ! ((y * w + x) * 4 + k) = 0"
      if "px ! ((y * w + x) * 4 + 3) = 0" "k < 3"
      unfolding applyBayerDithering_pos[OF assms(1) ne pos]
      using r xy that by (subst bayer_loop_nth) (simp_all add: bayer_value_alpha)
    show ?thesis using n3 nk unfolding xy(3) by simp
  qed
  show "applyBayerDithering px w h (Some pal) strength ! (4 * p + 3) = px ! (4 * p + 3)"
    using all by simp
  show "px ! (4 * p + 3) = 0 \<Longrightarrow> k < 3 \<Longrightarrow>
           applyBayerDithering px w h (Some pal) strength ! (4 * p + k) = 0"
    using all by simp
qed

lemma jround_unsigned: "jround (Some (unsigned (a :: byte))) = Some (unsigned a)"
  using jround_of_nat[of "unat a"] by simp

text \<open>What holds of the scratch buffer and of the output after the first \<open>m\<close> rounds of the
  error diffusion: the alpha samples of the scratch buffer are the input's, and the first \<open>m\<close>
  output pixels carry the input alpha, and are zero where it is zero.\<close>

lemma fs_rounds_invariant:
  fixes px :: "byte list"
  defines "Inv \<equiv> \<lambda>(m :: nat) (st :: jsnum list \<times> byte list).
     length (fst st) = length px \<and> length (snd st) = length px \<and>
     (\<forall>j<length px. j mod 4 = 3 \<longrightarrow> fst st ! j = Some (unsigned (px ! j))) \<and>
     (\<forall>p<m. 4 * p + 3 < length px \<longrightarrow>
        snd st ! (4 * p + 3) = px ! (4 * p + 3) \<and>
        (px ! (4 * p + 3) = 0 \<longrightarrow> (\<forall>k<3. snd st ! (4 * p + k) = 0)))"
  assumes "0 < w"
  shows "Inv n (fold (\<lambda>p. fs_pixel w h pal (p div w) (p mod w)) [0..<n]
                  (map (\<lambda>v. Some (of_nat (unat v))) px, replicate (length px) 0))"
proof (rule fold_upt_invariant)
  show "Inv 0 (map (\<lambda>v. Some (of_nat (unat v))) px, replicate (length px) 0)"
    by (simp add: Inv_def)
next
  fix i and t :: "jsnum list \<times> byte list"
  assume "i < n" and inv: "Inv i t"
  obtain d out where t: "t = (d, out)" by (cases t)
  have len: "length d = length px" "length out = length px"
    and alpha: "\<And>j. j < length px \<Longrightarrow> j mod 4 = 3 \<Longrightarrow> d ! j = Some (unsigned (px ! j))"
    and prev: "\<And>p. p < i \<Longrightarrow> 4 * p + 3 < length px \<Longrightarrow>
        out ! (4 * p + 3) = px ! (4 * p + 3) \<and>
        (px ! (4 * p + 3) = 0 \<longrightarrow> (\<forall>k<3. out ! (4 * p + k) = 0))"
    using inv by (simp_all add: Inv_def t)
  let ?st = "fs_pixel w h pal (i div w) (i mod w) (d, out)"
  have idx: "(i div w * w + i mod w) * 4 = 4 * i" by simp
  have l1: "length (fst ?st) = length px" using len by simp
  have l2: "length (snd ?st) = length px" using len by (simp add: fs_pixel_snd)
  have a': "fst ?st ! j = Some (unsigned (px ! j))" if "j < length px" "j mod 4 = 3" for j
    using that alpha by (simp add: fs_pixel_fst_alpha)
  have o': "snd ?st ! (4 * p + 3) = px ! (4 * p + 3) \<and>
        (px ! (4 * p + 3) = 0 \<longrightarrow> (\<forall>k<3. snd ?st ! (4 * p + k) = 0))"
    if p: "p < Suc i" and r: "4 * p + 3 < length px" for p
  proof (cases "p = i")
    case False
    then have pi: "p < i" using p by simp
    then have "snd ?st ! (4 * p + k) = out ! (4 * p + k)" if "k < 4" for k
      using that unfolding fs_pixel_snd idx by (intro write4_nth_other) simp
    then show ?thesis using prev[OF pi r] by simp
  next
    case True
    have m: "(4 * i + 3) mod 4 = 3" by (rule pixel_offset) simp_all
    have r': "4 * i + 3 < length px" using r True by simp
    have da: "num_at d (4 * i + 3) = Some (unsigned (px ! (4 * i + 3)))"
      using alpha[OF r' m] r' len by (simp add: num_at_def)
    have z: "(num_at d (4 * i + 3) = Some 0) = (px ! (4 * i + 3) = 0)"
      unfolding da by (simp add: unsigned_eq_0_iff)
    have "snd ?st ! (4 * i + 3) = px ! (4 * i + 3)"
      unfolding fs_pixel_snd idx
      using r' len z by (simp add: write4_nth_3 da jround_unsigned ToUint8Clamp_unsigned)
    moreover have "snd ?st ! (4 * i + k) = 0" if "px ! (4 * i + 3) = 0" "k < 3" for k
    proof -
      have "num_at d (4 * i + 3) = Some 0" using that(1) z by simp
      then show ?thesis
        unfolding fs_pixel_snd idx
        using write4_nth_rgb[OF that(2), of "4 * i" out "\<lambda>k. 0"] r' len that(2) by simp
    qed
    ultimately show ?thesis using True by simp
  qed
  show "Inv (Suc i) (fs_pixel w h pal (i div w) (i mod w) t)"
    unfolding t Inv_def using l1 l2 a' o' by simp
qed

lemma applyFloydSteinbergDithering_alpha:
  assumes "pal \<noteq> []" "length px = 4 * w * h" "p < w * h"
  shows "applyFloydSteinbergDithering px w h (Some pal) ! (4 * p + 3) = px ! (4 * p + 3)"
    and "px ! (4 * p + 3) = 0 \<Longrightarrow> k < 3 \<Longrightarrow>
           applyFloydSteinbergDithering px w h (Some pal) ! (4 * p + k) = 0"
proof -
  have r: "4 * p + 3 < length px" using assms(2,3) by simp
  then have ne: "px \<noteq> []" by auto
  have w: "0 < w" using assms(3) by (cases w) simp_all
  have p: "p < h * w" using assms(3) by (simp add: mult.commute)
  have unfold: "applyFloydSteinbergDithering px w h (Some pal) =
      snd (fold (\<lambda>p. fs_pixel w h (Some pal) (p div w) (p mod w)) [0..<h * w]
             (map (\<lambda>v. Some (of_nat (unat v))) px, replicate (length px) 0))"
    using assms(1) ne
    by (simp add: applyFloydSteinbergDithering_def Let_def nested_fold_flat)
  from fs_rounds_invariant[OF w, where n = "h * w" and h = h and pal = "Some pal" and px = px] p r
  have "applyFloydSteinbergDithering px w h (Some pal) ! (4 * p + 3) = px ! (4 * p + 3) \<and>
        (px ! (4 * p + 3) = 0 \<longrightarrow> (\<forall>k<3. applyFloydSteinbergDithering px w h (Some pal) ! (4 * p + k) = 0))"
    unfolding unfold by simp
  then show "applyFloydSteinbergDithering px w h (Some pal) ! (4 * p + 3) = px ! (4 * p + 3)"
    and "px ! (4 * p + 3) = 0 \<Longrightarrow> k < 3 \<Longrightarrow>
           applyFloydSteinbergDithering px w h (Some pal) ! (4 * p + k) = 0"
    by simp_all
qed

text \<open>
  C9. For both dithering operations, called with a non-empty palette on a buffer of
  \<open>width * height\<close> pixels: at every pixel the output alpha is the input alpha, and at every
  pixel whose input alpha is 0 the output pixel is \<open>(0, 0, 0, 0)\<close>.
\<close>

theorem dithering_alpha_pass_through:
  assumes "palette \<noteq> []" and "length pixels = 4 * width * height" and "p < width * height"
  shows "(pixels ! (4 * p + 3) \<noteq> 0 \<longrightarrow>
            applyBayerDithering pixels width height (Some palette) strength ! (4 * p + 3)
              = pixels ! (4 * p + 3) \<and>
            applyFloydSteinbergDithering pixels width height (Some palette) ! (4 * p + 3)
              = pixels ! (4 * p + 3)) \<and>
         (pixels ! (4 * p + 3) = 0 \<longrightarrow>
            (\<forall>k<4. applyBayerDithering pixels width height (Some palette) strength ! (4 * p + k) = 0 \<and>
                   applyFloydSteinbergDithering pixels width height (Some palette) ! (4 * p + k) = 0))"
proof (intro conjI impI allI)
  show "applyBayerDithering pixels width height (Some palette) strength ! (4 * p + 3)
          = pixels ! (4 * p + 3)"
    using assms by (rule applyBayerDithering_alpha)
  show "applyFloydSteinbergDithering pixels width height (Some palette) ! (4 * p + 3)
          = pixels ! (4 * p + 3)"
    using assms by (rule applyFloydSteinbergDithering_alpha)
next
  fix k :: nat
  assume z: "pixels ! (4 * p + 3) = 0" and k: "k < 4"
  show "applyBayerDithering pixels width height (Some palette) strength ! (4 * p + k) = 0"
  proof (cases "k = 3")
    case True
    then show ?thesis using applyBayerDithering_alpha(1)[OF assms] z by simp
  next
    case False
    then have "k < 3" using k by simp
    then show ?thesis using applyBayerDithering_alpha(2)[OF assms z] by simp
  qed
  show "applyFloydSteinbergDithering pixels width height (Some palette) ! (4 * p + k) = 0"
  proof (cases "k = 3")
    case True
    then show ?thesis using applyFloydSteinbergDithering_alpha(1)[OF assms] z by simp
  next
    case False
    then have "k < 3" using k by simp
    then show ?thesis using applyFloydSteinbergDithering_alpha(2)[OF assms z] by simp
  qed
qed

theorem dithering_alpha_pass_through_witness:
  "applyBayerDithering [1, 2, 3, 255, 9, 9, 9, 0] 2 1 (Some [[1, 2, 3]]) 100 ! 3 = 255 \<and>
   applyFloydSteinbergDithering [1, 2, 3, 255, 9, 9, 9, 0] 2 1 (Some [[1, 2, 3]]) ! 3 = 255 \<and>
   applyBayerDithering [1, 2, 3, 255, 9, 9, 9, 0] 2 1 (Some [[1, 2, 3]]) 100 ! 4 = 0 \<and>
   applyFloydSteinbergDithering [1, 2, 3, 255, 9, 9, 9, 0] 2 1 (Some [[1, 2, 3]]) ! 4 = 0"
proof -
  let ?px = "[1, 2, 3, 255, 9, 9, 9, 0] :: byte list"
  let ?pal = "[[1, 2, 3]] :: palette"
  have h: "?pal \<noteq> []" "length ?px = 4 * 2 * 1" by simp_all
  have "(1 :: nat) < 2 * 1" by simp
  from dithering_alpha_pass_through[OF h this, of 100, THEN conjunct2, rule_format, of 0]
  have "applyBayerDithering ?px 2 1 (Some ?pal) 100 ! (4 * 1 + 0) = 0 \<and>
        applyFloydSteinbergDithering ?px 2 1 (Some ?pal) ! (4 * 1 + 0) = 0"
    by simp
  moreover have "(0 :: nat) < 2 * 1" by simp
  from dithering_alpha_pass_through[OF h this, of 100]
  have "applyBayerDithering ?px 2 1 (Some ?pal) 100 ! (4 * 0 + 3) = 255 \<and>
        applyFloydSteinbergDithering ?px 2 1 (Some ?pal) ! (4 * 0 + 3) = 255"
    by simp
  ultimately show ?thesis by simp
qed

section \<open>One round of the error diffusion\<close>









section \<open>The size of the generated palette\<close>

lemma pad_last_length:
  "length (pad_last n g) = (if 0 < length g \<and> length g < n then n else length g)"
proof (induction n g rule: pad_last.induct)
  case (1 n g)
  show ?case
  proof (cases "length g < n \<and> length g > 0")
    case True
    with "1" show ?thesis by (subst pad_last.simps) auto
  next
    case False
    then show ?thesis by (subst pad_last.simps) auto
  qed
qed

lemma pad_black_length: "length (pad_black n g) = max n (length g)"
proof (induction n g rule: pad_black.induct)
  case (1 n g)
  show ?case
  proof (cases "length g < n")
    case True
    with "1" show ?thesis by (subst pad_black.simps) auto
  next
    case False
    then show ?thesis by (subst pad_black.simps) auto
  qed
qed

lemma fallbackPalette_length: "length (fallbackPalette n) = n"
  by (simp add: fallbackPalette_def)

lemma generatePalette_length:
  "length (generatePalette pixels numColors) = nat (max 1 (min 256 \<lfloor>numColors\<rfloor>))"
proof -
  have "length (pad_black n (if length g > n then take n g else g)) = n" for n and g :: palette
    by (simp add: pad_black_length)
  then show ?thesis
    by (simp add: generatePalette_def Let_def fallbackPalette_length)
qed

text \<open>
  C1. For every pixel buffer (empty, or without a pixel of alpha above 128, included) and
  every number of colors from 1 to 256, \<open>generatePalette\<close> returns a palette of exactly that
  many colors.
\<close>

theorem generatePalette_size:
  assumes "1 \<le> n" and "n \<le> 256"
  shows "length (generatePalette pixels (of_int n)) = nat n"
  using assms by (simp add: generatePalette_length)

theorem generatePalette_size_witness:
  "length (generatePalette [] 3) = 3 \<and> length (generatePalette [255, 0, 0, 255] 256) = 256"
  using generatePalette_size[of 3 "[]"] generatePalette_size[of 256 "[255, 0, 0, 255]"]
  by simp

section \<open>The bucket and the channel chosen by the median cut\<close>

lemma chan_bounds: "0 \<le> chan k p" "chan k p \<le> 255"
proof -
  have "uint (w :: byte) \<le> 255" for w
    using uint_bounded[of w] by simp
  then show "0 \<le> chan k p" "chan k p \<le> 255"
    by (auto simp: chan_def split: prod.splits)
qed

lemma fold_min: "fold (\<lambda>p a. min a (f p)) b (m :: int) = Min (insert m (f ` set b))"
proof (induction b arbitrary: m)
  case Nil
  then show ?case by simp
next
  case (Cons x xs)
  have "Min (insert (min m (f x)) (f ` set xs)) = Min (insert m (insert (f x) (f ` set xs)))"
    by (cases "xs = []") (simp_all add: min.assoc)
  then show ?case using Cons by simp
qed

lemma fold_max: "fold (\<lambda>p a. max a (f p)) b (m :: int) = Max (insert m (f ` set b))"
proof (induction b arbitrary: m)
  case Nil
  then show ?case by simp
next
  case (Cons x xs)
  have "Max (insert (max m (f x)) (f ` set xs)) = Max (insert m (insert (f x) (f ` set xs)))"
    by (cases "xs = []") (simp_all add: max.assoc)
  then show ?case using Cons by simp
qed

lemma fold_minmax:
  "fold (\<lambda>p (minR, maxR, minG, maxG, minB, maxB).
           (min minR (chan 0 p), max maxR (chan 0 p),
            min minG (chan 1 p), max maxG (chan 1 p),
            min minB (chan 2 p), max maxB (chan 2 p))) b (a0, b0, a1, b1, a2, b2)
   = (fold (\<lambda>p a. min a (chan 0 p)) b a0, fold (\<lambda>p a. max a (chan 0 p)) b b0,
      fold (\<lambda>p a. min a (chan 1 p)) b a1, fold (\<lambda>p a. max a (chan 1 p)) b b1,
      fold (\<lambda>p a. min a (chan 2 p)) b a2, fold (\<lambda>p a. max a (chan 2 p)) b b2)"
  by (induction b arbitrary: a0 b0 a1 b1 a2 b2) simp_all

lemma Min_insert_255:
  assumes "b \<noteq> []"
  shows "Min (insert 255 (chan k ` set b)) = Min (chan k ` set b)"
    and "Max (insert 0 (chan k ` set b)) = Max (chan k ` set b)"
proof -
  have ne: "chan k ` set b \<noteq> {}" using assms by simp
  from assms obtain x where x: "x \<in> set b" by (cases b) auto
  have "Min (chan k ` set b) \<le> chan k x" using x by simp
  then have "Min (chan k ` set b) \<le> 255"
    using chan_bounds(2)[of k x] by linarith
  then show "Min (insert 255 (chan k ` set b)) = Min (chan k ` set b)"
    using ne by (subst Min_insert) (simp_all only: finite_imageI finite_set min_absorb2 not_False_eq_True)
  have "chan k x \<le> Max (chan k ` set b)" using x by simp
  then have "0 \<le> Max (chan k ` set b)"
    using chan_bounds(1)[of k x] by linarith
  then show "Max (insert 0 (chan k ` set b)) = Max (chan k ` set b)"
    using ne by (subst Max_insert) (simp_all only: finite_imageI finite_set max_absorb2 not_False_eq_True)
qed

text \<open>The ranges the code computes are the ranges of the specification.\<close>

lemma bucket_ranges_spec:
  assumes "b \<noteq> []"
  shows "bucket_ranges b = (chan_range 0 b, chan_range 1 b, chan_range 2 b)"
  unfolding bucket_ranges_def fold_minmax fold_min fold_max chan_range_def
  by (simp add: Min_insert_255[OF assms])

lemma chan_range_nonneg:
  assumes "b \<noteq> []"
  shows "0 \<le> chan_range k b"
proof -
  from assms obtain x where x: "x \<in> set b" by (cases b) auto
  then have "Min (chan k ` set b) \<le> chan k x" "chan k x \<le> Max (chan k ` set b)" by simp_all
  then show ?thesis by (simp add: chan_range_def)
qed

lemma best_step_eligible:
  assumes "1 < length (buckets ! i)"
  defines "dR \<equiv> chan_range 0 (buckets ! i)" and "dG \<equiv> chan_range 1 (buckets ! i)"
    and "dB \<equiv> chan_range 2 (buckets ! i)"
  shows "best_step buckets i (bi, mr, sd) =
           (if dB > mr \<and> dB > dR \<and> dB > dG then (int i, dB, 2)
            else if dG > mr \<and> dG > dR then (int i, dG, 1)
            else if dR > mr then (int i, dR, 0)
            else (bi, mr, sd))"
proof -
  have "buckets ! i \<noteq> []" using assms(1) by auto
  from bucket_ranges_spec[OF this] assms(1) show ?thesis
    by (simp add: best_step_def Let_def dR_def dG_def dB_def)
qed

lemma best_step_skip:
  "length (buckets ! i) \<le> 1 \<Longrightarrow> best_step buckets i st = st"
  by (simp add: best_step_def)

lemma best_so_far_step:
  assumes inv: "best_so_far bs i st"
  shows "best_so_far bs (Suc i) (best_step bs i st)"
proof (cases "length (bs ! i) \<le> 1")
  case True
  then show ?thesis
    using inv by (auto simp: best_step_skip best_so_far_def less_Suc_eq split: prod.splits)
next
  case False
  then have el: "1 < length (bs ! i)" by simp
  then have ne: "bs ! i \<noteq> []" by auto
  obtain bi mr sd where st: "st = (bi, mr, sd)" by (cases st) auto
  define dR where "dR = chan_range 0 (bs ! i)"
  define dG where "dG = chan_range 1 (bs ! i)"
  define dB where "dB = chan_range 2 (bs ! i)"
  have nn: "0 \<le> dR" "0 \<le> dG" "0 \<le> dB"
    using chan_range_nonneg[OF ne] by (simp_all add: dR_def dG_def dB_def)
  have mx: "max_range (bs ! i) = max dR (max dG dB)"
    by (simp add: max_range_def dR_def dG_def dB_def)
  have res: "best_step bs i st =
           (if dB > mr \<and> dB > dR \<and> dB > dG then (int i, dB, 2)
            else if dG > mr \<and> dG > dR then (int i, dG, 1)
            else if dR > mr then (int i, dR, 0)
            else (bi, mr, sd))"
    unfolding st dR_def dG_def dB_def using el by (rule best_step_eligible)
  have before: "\<forall>j<i. 1 < length (bs ! j) \<longrightarrow> max_range (bs ! j) \<le> mr"
    using inv by (auto simp: best_so_far_def st)
  have new: "best_so_far bs (Suc i) (int i, m, k)"
    if "mr < m" "m = max dR (max dG dB)"
       "k = 0 \<and> dR = m \<or> k = 1 \<and> dG = m \<and> dR < m \<or> k = 2 \<and> dB = m \<and> dR < m \<and> dG < m"
    for m k
  proof -
    have a: "\<forall>j<Suc i. 1 < length (bs ! j) \<longrightarrow> max_range (bs ! j) \<le> m"
      using before that(1,2) mx by (auto simp: less_Suc_eq)
    have b: "\<forall>j<i. 1 < length (bs ! j) \<longrightarrow> max_range (bs ! j) < m"
      using before that(1) by auto
    show ?thesis
      unfolding best_so_far_def prod.case
      using a b el that(2,3) mx by (intro disjI2) (simp add: dR_def dG_def dB_def)
  qed
  consider (B) "dB > mr \<and> dB > dR \<and> dB > dG"
    | (G) "\<not> (dB > mr \<and> dB > dR \<and> dB > dG)" "dG > mr \<and> dG > dR"
    | (R) "\<not> (dB > mr \<and> dB > dR \<and> dB > dG)" "\<not> (dG > mr \<and> dG > dR)" "dR > mr"
    | (N) "\<not> (dB > mr \<and> dB > dR \<and> dB > dG)" "\<not> (dG > mr \<and> dG > dR)" "\<not> dR > mr"
    by blast
  then show ?thesis
  proof cases
    case B
    then show ?thesis unfolding res by (simp add: new)
  next
    case G
    then have "dB \<le> dG" by linarith
    then show ?thesis unfolding res using G by (simp add: new)
  next
    case R
    then have "dG \<le> dR" "dB \<le> dR" by linarith+
    then show ?thesis unfolding res using R by (simp add: new)
  next
    case N
    then have le: "dR \<le> mr" "dG \<le> mr" "dB \<le> mr" by linarith+
    then have m1: "mr \<noteq> - 1" using nn by linarith
    have old: "0 \<le> bi \<and> nat bi < i \<and> 1 < length (bs ! nat bi) \<and> mr = max_range (bs ! nat bi) \<and>
         (sd = 0 \<and> chan_range 0 (bs ! nat bi) = mr \<or>
          sd = 1 \<and> chan_range 1 (bs ! nat bi) = mr \<and> chan_range 0 (bs ! nat bi) < mr \<or>
          sd = 2 \<and> chan_range 2 (bs ! nat bi) = mr \<and> chan_range 0 (bs ! nat bi) < mr
                 \<and> chan_range 1 (bs ! nat bi) < mr) \<and>
         (\<forall>j<nat bi. 1 < length (bs ! j) \<longrightarrow> max_range (bs ! j) < mr)"
      using inv m1 unfolding best_so_far_def st prod.case by blast
    have a: "\<forall>j<Suc i. 1 < length (bs ! j) \<longrightarrow> max_range (bs ! j) \<le> mr"
      using before le mx by (auto simp: less_Suc_eq)
    have e: "best_step bs i st = (bi, mr, sd)" unfolding res using N by simp
    have "nat bi < Suc i" using old by simp
    then show ?thesis
      unfolding e best_so_far_def prod.case using old a by (intro disjI2) blast
  qed
qed

lemma find_best_so_far: "best_so_far bs (length bs) (find_best bs)"
  unfolding find_best_def
proof (rule fold_upt_invariant)
  show "best_so_far bs 0 (- 1, - 1, - 1)" by (simp add: best_so_far_def)
next
  fix i t
  assume "best_so_far bs i t"
  then show "best_so_far bs (Suc i) (best_step bs i t)" by (rule best_so_far_step)
qed

lemma chan_range_le_max_range:
  "k \<in> {0, 1, 2} \<Longrightarrow> chan_range k b \<le> max_range b"
  by (auto simp: max_range_def)

lemma median_cut_step:
  assumes "length buckets < numColors" "\<exists>b\<in>set buckets. 1 < length b"
    and "find_best buckets = (bi, mr, sd)"
  shows "median_cut numColors buckets =
           (if bi = - 1 \<or> mr = 0 then buckets
            else median_cut numColors (split_bucket buckets bi sd))"
  using assms by (subst median_cut.simps) simp

text \<open>
  C6. In a round of the median-cut loop (fewer buckets than colors, some bucket with more than
  one element) the search returns a bucket with more than one element and a channel whose
  range, maximum minus minimum over that bucket, is the largest range of any channel of any
  such bucket; every such bucket before it has strictly smaller ranges, and in the chosen
  bucket every channel before the chosen one has a strictly smaller range. Unless that range
  is 0 (then the loop stops), the bucket is sorted ascending by the channel and split at
  index \<open>length div 2\<close> into two non-empty halves, which take its place in the bucket list.
\<close>

theorem median_cut_round:
  assumes "length buckets < numColors" and "\<exists>b\<in>set buckets. 1 < length b"
    and "find_best buckets = (bestBucketIndex, maxRange, splitDimension)"
  defines "i \<equiv> nat bestBucketIndex"
  defines "s \<equiv> sort_key (chan splitDimension) (buckets ! i)"
  defines "m \<equiv> length (buckets ! i) div 2"
  shows "0 \<le> bestBucketIndex \<and> i < length buckets \<and> 1 < length (buckets ! i) \<and>
         splitDimension \<in> {0, 1, 2} \<and>
         maxRange = chan_range splitDimension (buckets ! i) \<and>
         (\<forall>j<length buckets. 1 < length (buckets ! j) \<longrightarrow>
            (\<forall>k\<in>{0, 1, 2}. chan_range k (buckets ! j) \<le> maxRange)) \<and>
         (\<forall>j<i. 1 < length (buckets ! j) \<longrightarrow>
            (\<forall>k\<in>{0, 1, 2}. chan_range k (buckets ! j) < maxRange)) \<and>
         (\<forall>k\<in>{0, 1, 2}. k < splitDimension \<longrightarrow> chan_range k (buckets ! i) < maxRange) \<and>
         sorted (map (chan splitDimension) s) \<and> mset s = mset (buckets ! i) \<and>
         take m s \<noteq> [] \<and> drop m s \<noteq> [] \<and>
         (maxRange = 0 \<longrightarrow> median_cut numColors buckets = buckets) \<and>
         (maxRange \<noteq> 0 \<longrightarrow>
            median_cut numColors buckets =
              median_cut numColors
                (filter (\<lambda>b. length b > 0)
                   (take i buckets @ [take m s, drop m s] @ drop (i + 1) buckets))) \<and>
         ([] \<notin> set buckets \<longrightarrow>
            filter (\<lambda>b. length b > 0) (take i buckets @ [take m s, drop m s] @ drop (i + 1) buckets)
              = take i buckets @ [take m s, drop m s] @ drop (i + 1) buckets)"
proof -
  from assms(2) obtain j0 where j0: "j0 < length buckets" "1 < length (buckets ! j0)"
    by (auto simp: in_set_conv_nth)
  have "best_so_far buckets (length buckets) (bestBucketIndex, maxRange, splitDimension)"
    using find_best_so_far[of buckets] assms(3) by simp
  then have "(bestBucketIndex = - 1 \<and> maxRange = - 1 \<and> (\<forall>j<length buckets. length (buckets ! j) \<le> 1)) \<or>
        (0 \<le> bestBucketIndex \<and> i < length buckets \<and> 1 < length (buckets ! i) \<and>
         maxRange = max_range (buckets ! i) \<and>
         (splitDimension = 0 \<and> chan_range 0 (buckets ! i) = maxRange \<or>
          splitDimension = 1 \<and> chan_range 1 (buckets ! i) = maxRange \<and> chan_range 0 (buckets ! i) < maxRange \<or>
          splitDimension = 2 \<and> chan_range 2 (buckets ! i) = maxRange \<and> chan_range 0 (buckets ! i) < maxRange
                 \<and> chan_range 1 (buckets ! i) < maxRange) \<and>
         (\<forall>j<length buckets. 1 < length (buckets ! j) \<longrightarrow> max_range (buckets ! j) \<le> maxRange) \<and>
         (\<forall>j<i. 1 < length (buckets ! j) \<longrightarrow> max_range (buckets ! j) < maxRange))"
    unfolding best_so_far_def prod.case i_def .
  then have sec: "0 \<le> bestBucketIndex \<and> i < length buckets \<and> 1 < length (buckets ! i) \<and>
         maxRange = max_range (buckets ! i) \<and>
         (splitDimension = 0 \<and> chan_range 0 (buckets ! i) = maxRange \<or>
          splitDimension = 1 \<and> chan_range 1 (buckets ! i) = maxRange \<and> chan_range 0 (buckets ! i) < maxRange \<or>
          splitDimension = 2 \<and> chan_range 2 (buckets ! i) = maxRange \<and> chan_range 0 (buckets ! i) < maxRange
                 \<and> chan_range 1 (buckets ! i) < maxRange) \<and>
         (\<forall>j<length buckets. 1 < length (buckets ! j) \<longrightarrow> max_range (buckets ! j) \<le> maxRange) \<and>
         (\<forall>j<i. 1 < length (buckets ! j) \<longrightarrow> max_range (buckets ! j) < maxRange)"
  proof (elim disjE)
    assume "bestBucketIndex = - 1 \<and> maxRange = - 1 \<and> (\<forall>j<length buckets. length (buckets ! j) \<le> 1)"
    then have "length (buckets ! j0) \<le> 1" using j0(1) by simp
    with j0(2) show ?thesis by simp
  qed
  have c1: "0 \<le> bestBucketIndex" and c2: "i < length buckets" and c3: "1 < length (buckets ! i)"
    and mx: "maxRange = max_range (buckets ! i)"
    using sec by simp_all
  have which: "splitDimension = 0 \<and> chan_range 0 (buckets ! i) = maxRange \<or>
       splitDimension = 1 \<and> chan_range 1 (buckets ! i) = maxRange \<and> chan_range 0 (buckets ! i) < maxRange \<or>
       splitDimension = 2 \<and> chan_range 2 (buckets ! i) = maxRange \<and> chan_range 0 (buckets ! i) < maxRange
                 \<and> chan_range 1 (buckets ! i) < maxRange"
    using sec by blast
  have le: "\<forall>j<length buckets. 1 < length (buckets ! j) \<longrightarrow> max_range (buckets ! j) \<le> maxRange"
    and lt: "\<forall>j<i. 1 < length (buckets ! j) \<longrightarrow> max_range (buckets ! j) < maxRange"
    using sec by blast+
  have c6: "\<forall>j<length buckets. 1 < length (buckets ! j) \<longrightarrow>
            (\<forall>k\<in>{0, 1, 2}. chan_range k (buckets ! j) \<le> maxRange)"
  proof (intro allI impI ballI)
    fix j k :: int and jn :: nat
    show "chan_range k (buckets ! jn) \<le> maxRange"
      if "jn < length buckets" "1 < length (buckets ! jn)" "k \<in> {0, 1, 2}"
      using le that(1,2) chan_range_le_max_range[OF that(3), of "buckets ! jn"] by force
  qed
  have c7: "\<forall>j<i. 1 < length (buckets ! j) \<longrightarrow>
            (\<forall>k\<in>{0, 1, 2}. chan_range k (buckets ! j) < maxRange)"
  proof (intro allI impI ballI)
    fix k :: int and jn :: nat
    show "chan_range k (buckets ! jn) < maxRange"
      if "jn < i" "1 < length (buckets ! jn)" "k \<in> {0, 1, 2}"
      using lt that(1,2) chan_range_le_max_range[OF that(3), of "buckets ! jn"] by force
  qed
  have c4: "splitDimension \<in> {0, 1, 2}" using which by auto
  have c5: "maxRange = chan_range splitDimension (buckets ! i)" using which by auto
  have c8: "\<forall>k\<in>{0, 1, 2}. k < splitDimension \<longrightarrow> chan_range k (buckets ! i) < maxRange"
    using which by auto
  have len: "length s = length (buckets ! i)" by (simp add: s_def)
  have c11: "take m s \<noteq> []" and c12: "drop m s \<noteq> []"
    using c3 len by (auto simp: m_def)
  have c9: "sorted (map (chan splitDimension) s)" and c10: "mset s = mset (buckets ! i)"
    by (simp_all add: s_def)
  have ne: "bestBucketIndex \<noteq> - 1" using c1 by simp
  have split: "split_bucket buckets bestBucketIndex splitDimension
      = filter (\<lambda>b. length b > 0) (take i buckets @ [take m s, drop m s] @ drop (i + 1) buckets)"
    unfolding split_bucket_def Let_def i_def s_def m_def by (simp only: length_sort)
  have c13: "maxRange = 0 \<longrightarrow> median_cut numColors buckets = buckets"
    using median_cut_step[OF assms(1,2,3)] by simp
  have c14: "maxRange \<noteq> 0 \<longrightarrow>
            median_cut numColors buckets =
              median_cut numColors
                (filter (\<lambda>b. length b > 0)
                   (take i buckets @ [take m s, drop m s] @ drop (i + 1) buckets))"
    using median_cut_step[OF assms(1,2,3)] ne by (simp add: split)
  have c15: "[] \<notin> set buckets \<longrightarrow>
            filter (\<lambda>b. length b > 0) (take i buckets @ [take m s, drop m s] @ drop (i + 1) buckets)
              = take i buckets @ [take m s, drop m s] @ drop (i + 1) buckets"
  proof
    assume "[] \<notin> set buckets"
    then have "\<forall>b\<in>set (take i buckets @ [take m s, drop m s] @ drop (i + 1) buckets). length b > 0"
      using c11 c12 by (auto dest: in_set_takeD in_set_dropD)
    then show "filter (\<lambda>b. length b > 0) (take i buckets @ [take m s, drop m s] @ drop (i + 1) buckets)
              = take i buckets @ [take m s, drop m s] @ drop (i + 1) buckets"
      by (simp only: filter_True)
  qed
  show ?thesis
    by (intro conjI c1 c2 c3 c4 c5 c6 c7 c8 c9 c10 c11 c12 c13 c14 c15)
qed

theorem median_cut_round_witness:
  "find_best [[(0, 0, 0), (10, 0, 0)], [(0, 0, 0), (0, 20, 0), (0, 5, 20)]] = (1, 20, 1) \<and>
   chan_range 1 [(0, 0, 0), (0, 20, 0), (0, 5, 20)] = 20 \<and>
   median_cut 3 [[(0, 0, 0), (10, 0, 0)], [(0, 0, 0), (0, 20, 0), (0, 5, 20)]]
     = [[(0, 0, 0), (10, 0, 0)], [(0, 0, 0)], [(0, 5, 20), (0, 20, 0)]]"
proof -
  let ?b0 = "[(0, 0, 0), (10, 0, 0)] :: pixel list"
  let ?b1 = "[(0, 0, 0), (0, 20, 0), (0, 5, 20)] :: pixel list"
  let ?B = "[?b0, ?b1]"
  have r0: "bucket_ranges ?b0 = (10, 0, 0)" and r1: "bucket_ranges ?b1 = (0, 20, 20)"
    by (simp_all add: bucket_ranges_def chan_def)
  have s0: "best_step ?B 0 (- 1, - 1, - 1) = (0, 10, 0)"
    by (simp add: best_step_def r0)
  have s1: "best_step ?B (Suc 0) (0, 10, 0) = (1, 20, 1)"
    by (simp add: best_step_def r1)
  have "[0..<length ?B] = [0, 1]" by (simp add: upt_rec)
  then have fb: "find_best ?B = (1, 20, 1)"
    by (simp add: find_best_def s0 s1)
  have h: "length ?B < 3" "\<exists>b\<in>set ?B. 1 < length b" by simp_all
  note t = median_cut_round[OF h fb]
  have cr: "(20 :: int) = chan_range 1 (?B ! nat 1)"
    using t by blast
  have "(20 :: int) \<noteq> 0 \<longrightarrow> median_cut 3 ?B =
      median_cut 3 (filter (\<lambda>b. length b > 0)
         (take (nat 1) ?B @ [take (length (?B ! nat 1) div 2) (sort_key (chan 1) (?B ! nat 1)),
                             drop (length (?B ! nat 1) div 2) (sort_key (chan 1) (?B ! nat 1))]
            @ drop (nat 1 + 1) ?B))"
    using t by blast
  then have "median_cut 3 ?B = median_cut 3 [?b0, [(0, 0, 0)], [(0, 5, 20), (0, 20, 0)]]"
    by (simp add: chan_def)
  also have "\<dots> = [?b0, [(0, 0, 0)], [(0, 5, 20), (0, 20, 0)]]"
    by (subst median_cut.simps) simp
  finally show ?thesis using fb cr by simp
qed

end
